theory Spec2Isabelle
  imports Main "HOL-Library.Sublist"
begin

section \<open>Strings and the character classes of the regular expressions\<close>

text \<open>
  A JavaScript string is a sequence of UTF-16 code units. The embedding covers the
  documents and paths whose code units are all below 256: such a string is a \<^typ>\<open>string\<close>,
  one \<^typ>\<open>char\<close> per code unit. In this range the line terminators of the regular
  expressions (\<^verbatim>\<open>.\<close>, \<^verbatim>\<open>^\<close> and \<^verbatim>\<open>$\<close> under the flag \<^verbatim>\<open>m\<close>) are
  \<^verbatim>\<open>\n\<close> and \<^verbatim>\<open>\r\<close>, and the white space of \<^verbatim>\<open>trim\<close> is
  tab, line feed, vertical tab, form feed, carriage return, space and no-break space.
\<close>

definition LF :: char where
  "LF = CHR 0x0A"

definition CR :: char where
  "CR = CHR 0x0D"

definition isEol :: "char \<Rightarrow> bool" where
  "isEol c = (c = LF \<or> c = CR)"

definition isSpace :: "char \<Rightarrow> bool" where
  "isSpace c = (c = CHR 0x09 \<or> c = CHR 0x0A \<or> c = CHR 0x0B \<or> c = CHR 0x0C
     \<or> c = CHR 0x0D \<or> c = CHR 0x20 \<or> c = CHR 0xA0)"

text \<open>\<^verbatim>\<open>\w\<close> is \<^verbatim>\<open>[A-Za-z0-9_]\<close>.\<close>

definition isWordChar :: "char \<Rightarrow> bool" where
  "isWordChar c = (let n = (of_char c :: nat) in
     (65 \<le> n \<and> n \<le> 90) \<or> (97 \<le> n \<and> n \<le> 122) \<or> (48 \<le> n \<and> n \<le> 57) \<or> n = 95)"

text \<open>\<^verbatim>\<open>s.startsWith(p)\<close> is \<^term>\<open>prefix p s\<close>, \<^verbatim>\<open>s.endsWith(p)\<close> is \<^term>\<open>suffix p s\<close>.\<close>

text \<open>\<^verbatim>\<open>s.trim()\<close>\<close>

definition trim :: "string \<Rightarrow> string" where
  "trim s = rev (dropWhile isSpace (rev (dropWhile isSpace s)))"

text \<open>\<^verbatim>\<open>s.toLowerCase()\<close> on code units below 256: the letters A to Z, and the
  letters 0xC0 to 0xDE but the multiplication sign 0xD7, move up by 32.\<close>

definition toLowerChar :: "char \<Rightarrow> char" where
  "toLowerChar c = (let n = (of_char c :: nat) in
     if (65 \<le> n \<and> n \<le> 90) \<or> (192 \<le> n \<and> n \<le> 222 \<and> n \<noteq> 215) then char_of (n + 32) else c)"

definition toLowerCase :: "string \<Rightarrow> string" where
  "toLowerCase s = map toLowerChar s"

text \<open>\<^verbatim>\<open>s.toUpperCase()\<close> of a one-letter string \<^verbatim>\<open>a\<close> to \<^verbatim>\<open>z\<close>, the only use the
  program makes of it.\<close>

definition toUpperChar :: "char \<Rightarrow> char" where
  "toUpperChar c = (let n = (of_char c :: nat) in
     if 97 \<le> n \<and> n \<le> 122 then char_of (n - 32) else c)"

text \<open>\<^verbatim>\<open>encodeURIComponent\<close>: the unreserved characters stay, every other code unit is
  written as the percent-escaped bytes of its UTF-8 encoding (one byte below 128, two
  bytes from 128 to 255).\<close>

definition hexDigit :: "nat \<Rightarrow> char" where
  "hexDigit n = (if n < 10 then char_of (48 + n) else char_of (55 + n))"

definition percentByte :: "nat \<Rightarrow> string" where
  "percentByte n = [CHR ''%'', hexDigit (n div 16), hexDigit (n mod 16)]"

definition isUriUnreserved :: "char \<Rightarrow> bool" where
  "isUriUnreserved c = (let n = (of_char c :: nat) in
     (65 \<le> n \<and> n \<le> 90) \<or> (97 \<le> n \<and> n \<le> 122) \<or> (48 \<le> n \<and> n \<le> 57)
     \<or> c \<in> set ''-_.!~*()'' \<or> n = 39)"

definition encodeChar :: "char \<Rightarrow> string" where
  "encodeChar c = (let n = (of_char c :: nat) in
     if isUriUnreserved c then [c]
     else if n < 128 then percentByte n
     else percentByte (192 + n div 64) @ percentByte (128 + n mod 64))"

definition encodeURIComponent :: "string \<Rightarrow> string" where
  "encodeURIComponent s = concat (map encodeChar s)"

text \<open>\<^verbatim>\<open>s.split(/\n|\r/g)\<close>: one piece per line terminator plus one; the empty string
  gives one empty piece.\<close>

fun splitLines :: "string \<Rightarrow> string list" where
  "splitLines [] = [[]]"
| "splitLines (c # cs) =
     (if isEol c then [] # splitLines cs
      else (case splitLines cs of [] \<Rightarrow> [[c]] | l # ls \<Rightarrow> (c # l) # ls))"

text \<open>The number of \<^verbatim>\<open>#\<close> a string starts with: the length of the match of
  \<^verbatim>\<open>/^#+/\<close>, and 0 when there is none.\<close>

definition hashes :: "string \<Rightarrow> nat" where
  "hashes s = length (takeWhile (\<lambda>c. c = CHR ''#'') s)"

text \<open>\<^verbatim>\<open>/^#{lo,hi} /.test(s)\<close>: the greedy run of \<^verbatim>\<open>#\<close> can only be followed by a
  space at the end of the whole run, so the run itself has between lo and hi marks.\<close>

definition atxLine :: "nat \<Rightarrow> nat \<Rightarrow> string \<Rightarrow> bool" where
  "atxLine lo hi s = (let n = hashes s in
     lo \<le> n \<and> n \<le> hi \<and> (case drop n s of [] \<Rightarrow> False | c # _ \<Rightarrow> c = CHR '' ''))"

text \<open>\<^verbatim>\<open>s.replace(/^#+/, '')\<close> and \<^verbatim>\<open>s.replace(/#+$/, '')\<close> (no flag \<^verbatim>\<open>m\<close>: the end
  of the string).\<close>

definition stripLeadingHashes :: "string \<Rightarrow> string" where
  "stripLeadingHashes s = dropWhile (\<lambda>c. c = CHR ''#'') s"

definition stripTrailingHashes :: "string \<Rightarrow> string" where
  "stripTrailingHashes s = rev (dropWhile (\<lambda>c. c = CHR ''#'') (rev s))"

section \<open>getDocumentTitle\<close>

text \<open>\<^verbatim>\<open>title.replace(/<!--(.*?)-->/g, '')\<close>. After \<^verbatim>\<open><!--\<close> the lazy \<^verbatim>\<open>.*?\<close> stops at
  the first \<^verbatim>\<open>-->\<close> it reaches without crossing a line terminator; the search goes on
  behind the removed comment.\<close>

fun findCommentEnd :: "string \<Rightarrow> string option" where
  "findCommentEnd [] = None"
| "findCommentEnd (c # r) =
     (if prefix ''-->'' (c # r) then Some (drop 3 (c # r))
      else if isEol c then None
      else findCommentEnd r)"

lemma findCommentEnd_length:
  "findCommentEnd s = Some r \<Longrightarrow> length r < length s"
  by (induction s) (auto split: if_splits)

function removeComments :: "string \<Rightarrow> string" where
  "removeComments [] = []"
| "removeComments (c # r) =
     (if prefix ''<!--'' (c # r) then
        (case findCommentEnd (drop 4 (c # r)) of
           Some rest \<Rightarrow> removeComments rest
         | None \<Rightarrow> c # removeComments r)
      else c # removeComments r)"
  by pat_completeness auto
termination
proof (relation "measure length")
  show "wf (measure length)" by simp
next
  fix c r rest
  assume "findCommentEnd (drop 4 (c # r)) = Some rest"
  then have "length rest < length (drop 4 (c # r))"
    by (rule findCommentEnd_length)
  then show "(rest, c # r) \<in> measure length" by simp
qed simp_all

text \<open>The heading text of a line: \<^verbatim>\<open>.trim().replace(/^#+/, '').replace(/#+$/, '').trim()\<close>
  for the title, and the same without the first \<^verbatim>\<open>trim\<close> for a heading line.\<close>

definition titleOfLine :: "string \<Rightarrow> string" where
  "titleOfLine l = trim (stripTrailingHashes (stripLeadingHashes (trim (removeComments l))))"

definition getDocumentTitle :: "string \<Rightarrow> string" where
  "getDocumentTitle text =
     (case find (\<lambda>lineText. prefix ''#'' lineText \<and> atxLine 1 6 lineText) (splitLines text) of
        Some title \<Rightarrow> titleOfLine title
      | None \<Rightarrow> ''Untitled'')"

section \<open>The heading lines of the table of contents\<close>

text \<open>\<^verbatim>\<open>text.replace(/^```[\s\S]*?```/g, '')\<close>, and the same with \<^verbatim>\<open>:::\<close>. The
  expression has no flag \<^verbatim>\<open>m\<close>, so \<^verbatim>\<open>^\<close> is the start of the text only: the one
  block that can be removed is a block the text starts with, up to the first closing
  delimiter behind the opening one.\<close>

fun findAfter :: "string \<Rightarrow> string \<Rightarrow> string option" where
  "findAfter d [] = None"
| "findAfter d (c # r) =
     (if prefix d (c # r) then Some (drop (length d) (c # r)) else findAfter d r)"

definition removeLeadingBlock :: "string \<Rightarrow> string \<Rightarrow> string" where
  "removeLeadingBlock d text =
     (if prefix d text then
        (case findAfter d (drop (length d) text) of Some rest \<Rightarrow> rest | None \<Rightarrow> text)
      else text)"

definition markdownTextWithoutCodeBlock :: "string \<Rightarrow> string" where
  "markdownTextWithoutCodeBlock markdownText =
     removeLeadingBlock '':::'' (removeLeadingBlock ''```'' markdownText)"

definition tocStringList :: "string \<Rightarrow> string list" where
  "tocStringList markdownText =
     (''# '' @ getDocumentTitle markdownText)
     # filter (atxLine 2 6) (splitLines (markdownTextWithoutCodeBlock markdownText))"

section \<open>The heading tree\<close>

text \<open>
  The loop of \<^verbatim>\<open>buildHtml\<close> builds the tree by mutating objects that \<^verbatim>\<open>tocString\<close>,
  \<^verbatim>\<open>tocStack\<close> and the \<^verbatim>\<open>children\<close> arrays share. The embedding keeps the objects in
  a store, in the order of their creation; a reference to an object is its index there.
  \<^verbatim>\<open>tocStack\<close> is a JavaScript array: reading an index that was never written gives
  \<^verbatim>\<open>undefined\<close> (here \<^term>\<open>None\<close>), and reading \<^verbatim>\<open>.children\<close> of
  \<^verbatim>\<open>undefined\<close> throws a \<^verbatim>\<open>TypeError\<close>.
\<close>

record headerObject =
  header :: string
  headerLevel :: nat
  headerText :: string
  headerId :: string
  headerIdEncoded :: string
  children :: "nat list"

record tocState =
  store :: "headerObject list"
  tocString :: "nat list"
  tocStack :: "nat option list"

datatype jsError = TypeError

definition slugId :: "string \<Rightarrow> string" where
  "slugId text = toLowerCase (map (\<lambda>c. if c = CHR '' '' then CHR ''-'' else c) text)"

definition slugIdEncoded :: "string \<Rightarrow> string" where
  "slugIdEncoded hid = encodeURIComponent (filter (\<lambda>c. c \<noteq> CHR ''`'') hid)"

definition makeHeaderObject :: "string \<Rightarrow> headerObject" where
  "makeHeaderObject hdr =
     (let level = hashes hdr;
          text = trim (stripTrailingHashes (stripLeadingHashes hdr));
          hid = slugId text
      in \<lparr> header = hdr, headerLevel = level, headerText = text, headerId = hid,
           headerIdEncoded = slugIdEncoded hid, children = [] \<rparr>)"

definition stackGet :: "nat option list \<Rightarrow> int \<Rightarrow> nat option" where
  "stackGet stack k = (if 0 \<le> k \<and> nat k < length stack then stack ! nat k else None)"

definition stackSet :: "nat option list \<Rightarrow> nat \<Rightarrow> nat \<Rightarrow> nat option list" where
  "stackSet stack k v =
     (if k < length stack then stack[k := Some v]
      else stack @ replicate (k - length stack) None @ [Some v])"

definition pushChild :: "headerObject list \<Rightarrow> nat \<Rightarrow> nat \<Rightarrow> headerObject list" where
  "pushChild objs parent child =
     objs[parent := (objs ! parent)\<lparr>children := children (objs ! parent) @ [child]\<rparr>]"

definition tocStep :: "tocState \<Rightarrow> string \<Rightarrow> jsError + tocState" where
  "tocStep st hdr =
     (let headerObject = makeHeaderObject hdr;
          ref = length (store st);
          objs = store st @ [headerObject]
      in if headerLevel headerObject = 1 then
           Inr \<lparr> store = objs, tocString = tocString st @ [ref], tocStack = [Some ref] \<rparr>
         else
           (case stackGet (tocStack st) (int (headerLevel headerObject) - 2) of
              None \<Rightarrow> Inl TypeError
            | Some parent \<Rightarrow>
                Inr \<lparr> store = pushChild objs parent ref, tocString = tocString st,
                      tocStack = stackSet (tocStack st) (headerLevel headerObject - 1) ref \<rparr>))"

fun tocLoop :: "tocState \<Rightarrow> string list \<Rightarrow> jsError + tocState" where
  "tocLoop st [] = Inr st"
| "tocLoop st (hdr # rest) =
     (case tocStep st hdr of Inl e \<Rightarrow> Inl e | Inr st' \<Rightarrow> tocLoop st' rest)"

definition buildToc :: "string list \<Rightarrow> jsError + tocState" where
  "buildToc lines =
     (let empty = \<lparr> store = [], tocString = [], tocStack = [] \<rparr>
      in if length lines \<le> 2 then Inr empty else tocLoop empty lines)"

section \<open>The block scanner\<close>

text \<open>
  The expression \<^verbatim>\<open>/(:{3,}|`{3,})(?:(.*$)\n)?([\s\S]*?)(?:(?:\n\1)|$)/m\<close> is used without the
  flag \<^verbatim>\<open>g\<close>, so every \<^verbatim>\<open>exec\<close> searches the whole target from its start.

  \<^item> It matches at the first index where the target has three colons or three backticks:
    from there every continuation succeeds, at the latest at the end of the target.
  \<^item> Group 1 is greedy and nothing behind it fails, so it is the whole run of the
    delimiter character.
  \<^item> The optional group \<^verbatim>\<open>(?:(.*$)\n)?\<close> takes the rest of the delimiter's line and the
    line feed behind it; \<^verbatim>\<open>$\<close> holds only where \<^verbatim>\<open>.*\<close> can go no further, so the group
    is taken exactly when that line ends in a line feed.
  \<^item> Group 3 is lazy: it grows until \<^verbatim>\<open>\n\1\<close> or \<^verbatim>\<open>$\<close> holds, and under the flag
    \<^verbatim>\<open>m\<close> the latter holds in front of every line terminator. So group 3 is the rest of
    one line, and the match ends there, after a line feed and the delimiter run when
    these come next.
\<close>

datatype markdownBlockType = plain | code | callout | unknown

text \<open>The class \<^verbatim>\<open>markdownBlock\<close>; its fields \<^verbatim>\<open>text\<close> and \<^verbatim>\<open>type\<close> are
  \<open>blockText\<close> and \<open>blockType\<close> here.\<close>

record markdownBlock =
  blockText :: string
  blockType :: markdownBlockType

definition startsBlock :: "string \<Rightarrow> bool" where
  "startsBlock s = (prefix '':::'' s \<or> prefix ''```'' s)"

text \<open>The index of the match, or \<^term>\<open>None\<close> when \<^verbatim>\<open>exec\<close> returns \<^verbatim>\<open>null\<close>.\<close>

fun codeBlockIndex :: "string \<Rightarrow> nat option" where
  "codeBlockIndex [] = None"
| "codeBlockIndex (c # cs) =
     (if startsBlock (c # cs) then Some 0 else map_option Suc (codeBlockIndex cs))"

text \<open>The matched text \<^verbatim>\<open>markdownBlockMatch[0]\<close>, for a string that starts at the index
  of the match.\<close>

definition codeBlockMatch :: "string \<Rightarrow> string" where
  "codeBlockMatch s =
     (let delimiter = takeWhile (\<lambda>c. c = hd s) s;
          r1 = drop (length delimiter) s;
          tag = takeWhile (\<lambda>c. \<not> isEol c) r1;
          r2 = drop (length tag) r1;
          tagLine = (if prefix [LF] r2 then tag @ [LF] else []);
          r3 = drop (length tagLine) r1;
          body = takeWhile (\<lambda>c. \<not> isEol c) r3;
          r4 = drop (length body) r3;
          closing = (if prefix (LF # delimiter) r4 then LF # delimiter else [])
      in delimiter @ tagLine @ body @ closing)"

definition codeBlockExec :: "string \<Rightarrow> (nat \<times> string) option" where
  "codeBlockExec target =
     (case codeBlockIndex target of
        None \<Rightarrow> None
      | Some index \<Rightarrow> Some (index, codeBlockMatch (drop index target)))"

definition codeBlockType :: "string \<Rightarrow> markdownBlockType" where
  "codeBlockType codeBlock =
     (if prefix ''```'' codeBlock then code
      else if prefix '':::'' codeBlock then callout
      else unknown)"

lemma codeBlockIndex_bound:
  "codeBlockIndex s = Some i \<Longrightarrow> i < length s \<and> startsBlock (drop i s)"
proof (induction s arbitrary: i)
  case Nil
  then show ?case by simp
next
  case (Cons c cs)
  show ?case
  proof (cases "startsBlock (c # cs)")
    case True
    with Cons.prems show ?thesis by simp
  next
    case False
    with Cons.prems obtain j where j: "codeBlockIndex cs = Some j" "i = Suc j"
      by auto
    from Cons.IH [OF j(1)] j(2) show ?thesis by simp
  qed
qed

lemma codeBlockMatch_nonempty:
  "startsBlock s \<Longrightarrow> codeBlockMatch s \<noteq> []"
  by (cases s) (auto simp: codeBlockMatch_def startsBlock_def Let_def)

lemma codeBlockExec_shrinks:
  assumes "codeBlockExec target = Some (index, codeBlock)"
  shows "length (drop (index + length codeBlock) target) < length target"
proof -
  from assms obtain i where i: "codeBlockIndex target = Some i" "index = i"
    "codeBlock = codeBlockMatch (drop i target)"
    by (auto simp: codeBlockExec_def split: option.splits)
  from codeBlockIndex_bound [OF i(1)] have "i < length target" "startsBlock (drop i target)"
    by simp_all
  with codeBlockMatch_nonempty i have "codeBlock \<noteq> []" "index < length target"
    by simp_all
  then show ?thesis by (cases codeBlock) simp_all
qed

text \<open>The \<^verbatim>\<open>while\<close> loop that fills \<^verbatim>\<open>markdownBlockList\<close>. Each round pushes the text in
  front of the match as a plain block and the match as a block of its type, and goes on
  with the target behind the match. When \<^verbatim>\<open>exec\<close> returns \<^verbatim>\<open>null\<close> the loop ends and
  nothing is pushed.\<close>

function markdownBlockLoop :: "string \<Rightarrow> markdownBlock list" where
  "markdownBlockLoop markdownTextTarget =
     (case codeBlockExec markdownTextTarget of
        None \<Rightarrow> []
      | Some (index, codeBlock) \<Rightarrow>
          \<lparr> blockText = take index markdownTextTarget, blockType = plain \<rparr>
          # \<lparr> blockText = codeBlock, blockType = codeBlockType codeBlock \<rparr>
          # markdownBlockLoop (drop (index + length codeBlock) markdownTextTarget))"
  by pat_completeness auto
termination
proof (relation "measure length")
  show "wf (measure length)" by simp
next
  fix markdownTextTarget x2 index codeBlock
  assume "codeBlockExec markdownTextTarget = Some x2" "(index, codeBlock) = x2"
  then have "codeBlockExec markdownTextTarget = Some (index, codeBlock)" by simp
  then show "(drop (index + length codeBlock) markdownTextTarget, markdownTextTarget)
    \<in> measure length"
    using codeBlockExec_shrinks by simp
qed

declare markdownBlockLoop.simps [simp del]

text \<open>\<^verbatim>\<open>markdownTextReconstructed\<close>: the texts of the blocks, concatenated.\<close>

definition reconstruct :: "markdownBlock list \<Rightarrow> string" where
  "reconstruct markdownBlockList = concat (map blockText markdownBlockList)"

section \<open>The image reference rewriter\<close>

text \<open>
  The expression
  \<^verbatim>\<open>/^!\[([^\]]*)\]\((?!\.\/TOBE_BASE64_IMGPATH_)([^)]+)(?:\s*=\s*(\d+)x(\d+))?\)$/gm\<close>
  at one index of the text:

  \<^item> \<^verbatim>\<open>[^\]]*\<close> runs to the first \<^verbatim>\<open>]\<close> (line terminators included), and only there
    can \<^verbatim>\<open>\]\<close> match, so group 1 is the text up to the first \<^verbatim>\<open>]\<close>;
  \<^item> the lookahead refuses a source that starts with the placeholder prefix;
  \<^item> \<^verbatim>\<open>[^)]+\<close> runs to the first \<^verbatim>\<open>)\<close>. The optional size group consumes no
    \<^verbatim>\<open>)\<close>, so with or without it the match ends behind that first \<^verbatim>\<open>)\<close>, where
    \<^verbatim>\<open>$\<close> must hold; the greedy first attempt, group 2 as the whole text up to the
    first \<^verbatim>\<open>)\<close> and the size group skipped, succeeds whenever any attempt does.

  So group 2 is the text between \<^verbatim>\<open>](\<close> and the first \<^verbatim>\<open>)\<close>, a size annotation
  included, and the matched text is \<^verbatim>\<open>![\<close> group 1 \<^verbatim>\<open>](\<close> group 2 \<^verbatim>\<open>)\<close>.
\<close>

definition placeholderPrefix :: string where
  "placeholderPrefix = ''./TOBE_BASE64_IMGPATH_''"

definition placeholderSuffix :: string where
  "placeholderSuffix = ''_TO_BE_BASE64_IMGPATH''"

text \<open>\<^verbatim>\<open>$\<close> under the flag \<^verbatim>\<open>m\<close>: the end of the text, or a line terminator next.\<close>

definition atLineEnd :: "string \<Rightarrow> bool" where
  "atLineEnd s = (case s of [] \<Rightarrow> True | c # _ \<Rightarrow> isEol c)"

definition imgMatchHere :: "string \<Rightarrow> (string \<times> string) option" where
  "imgMatchHere s =
     (if prefix ''!['' s then
        (let s1 = drop 2 s;
             alt = takeWhile (\<lambda>c. c \<noteq> CHR '']'') s1;
             s2 = drop (length alt) s1
         in if prefix '']('' s2 then
              (let s3 = drop 2 s2;
                   src = takeWhile (\<lambda>c. c \<noteq> CHR '')'') s3;
                   s4 = drop (length src) s3
               in if prefix placeholderPrefix s3 then None
                  else if src \<noteq> [] \<and> prefix '')'' s4 \<and> atLineEnd (drop 1 s4)
                  then Some (alt, src)
                  else None)
            else None)
      else None)"

text \<open>\<^verbatim>\<open>imgMatch[0]\<close>, from the two groups.\<close>

definition imgMatched :: "string \<Rightarrow> string \<Rightarrow> string" where
  "imgMatched imgAlt imgSrc = ''!['' @ imgAlt @ '']('' @ imgSrc @ '')''"

text \<open>The search of \<^verbatim>\<open>exec\<close> from index \<open>i\<close>, where \<open>s\<close> is the text from \<open>i\<close> on and
  \<open>lineStart\<close> says whether \<^verbatim>\<open>^\<close> holds at \<open>i\<close>. The result is the index of the match
  and its groups 1 and 2.\<close>

fun imgScan :: "bool \<Rightarrow> nat \<Rightarrow> string \<Rightarrow> (nat \<times> string \<times> string) option" where
  "imgScan lineStart i s =
     (case (if lineStart then imgMatchHere s else None) of
        Some (alt, src) \<Rightarrow> Some (i, alt, src)
      | None \<Rightarrow> (case s of [] \<Rightarrow> None | c # r \<Rightarrow> imgScan (isEol c) (Suc i) r))"

text \<open>\<^verbatim>\<open>imgRegex.exec(text)\<close> with \<^verbatim>\<open>imgRegex.lastIndex = lastIndex\<close>. After a match the
  program's next \<^verbatim>\<open>lastIndex\<close> is the end of the match; after \<^verbatim>\<open>null\<close> it is 0.\<close>

definition imgExec :: "string \<Rightarrow> nat \<Rightarrow> (nat \<times> string \<times> string) option" where
  "imgExec text lastIndex =
     (if length text < lastIndex then None
      else imgScan (lastIndex = 0 \<or> isEol (text ! (lastIndex - 1))) lastIndex
             (drop lastIndex text))"

definition eligible :: "string \<Rightarrow> bool" where
  "eligible imgSrc = (\<not> prefix ''http://'' imgSrc \<and> \<not> prefix ''https://'' imgSrc
     \<and> \<not> prefix ''data:image/'' imgSrc \<and> \<not> prefix ''data:application/'' imgSrc)"

definition imgReplaced :: "string \<Rightarrow> string \<Rightarrow> string" where
  "imgReplaced imgAlt imgSrc =
     ''!['' @ imgAlt @ '']('' @ placeholderPrefix @ imgSrc @ placeholderSuffix @ '')''"

lemma count_drop_le: "m \<le> n \<Longrightarrow> length (filter P (drop n xs)) \<le> length (filter P (drop m xs))"
proof -
  assume "m \<le> n"
  then have "drop n xs = drop (n - m) (drop m xs)" by simp
  moreover have "length (filter P (drop (n - m) (drop m xs))) \<le> length (filter P (drop m xs))"
    by (metis append_take_drop_id filter_append length_append le_add2)
  ultimately show ?thesis by simp
qed

lemma prefix_drop: "prefix p s \<Longrightarrow> s = p @ drop (length p) s"
  by (auto simp: prefix_def)

lemma imgMatchHere_shape:
  assumes "imgMatchHere s = Some (alt, src)"
  shows "\<exists>rest. s = imgMatched alt src @ rest \<and> atLineEnd rest \<and> CHR '']'' \<notin> set alt
    \<and> CHR '')'' \<notin> set src \<and> src \<noteq> [] \<and> \<not> prefix placeholderPrefix (src @ '')'' @ rest)"
proof -
  define s1 where "s1 = drop 2 s"
  define a where "a = takeWhile (\<lambda>c. c \<noteq> CHR '']'') s1"
  define s2 where "s2 = drop (length a) s1"
  define s3 where "s3 = drop 2 s2"
  define b where "b = takeWhile (\<lambda>c. c \<noteq> CHR '')'') s3"
  define s4 where "s4 = drop (length b) s3"
  have eq: "imgMatchHere s =
     (if prefix ''!['' s then
        if prefix '']('' s2 then
          if prefix placeholderPrefix s3 then None
          else if b \<noteq> [] \<and> prefix '')'' s4 \<and> atLineEnd (drop 1 s4) then Some (a, b)
          else None
        else None
      else None)"
    by (simp only: imgMatchHere_def Let_def s1_def a_def s2_def s3_def b_def s4_def)
  from assms eq have p: "prefix ''!['' s" "prefix '']('' s2" "\<not> prefix placeholderPrefix s3"
    "b \<noteq> []" "prefix '')'' s4" "atLineEnd (drop 1 s4)" "alt = a" "src = b"
    by (auto split: if_splits)
  have e1: "s = ''!['' @ s1" using prefix_drop [OF p(1)] by (simp add: s1_def numeral_2_eq_2)
  have e2: "s1 = a @ s2" by (simp add: a_def s2_def flip: dropWhile_eq_drop)
  have e3: "s2 = '']('' @ s3" using prefix_drop [OF p(2)] by (simp add: s3_def numeral_2_eq_2)
  have e4: "s3 = b @ s4" by (simp add: b_def s4_def flip: dropWhile_eq_drop)
  have e5: "s4 = '')'' @ drop 1 s4" using prefix_drop [OF p(5)] by simp
  have "s = imgMatched a b @ drop 1 s4"
    by (subst e1, subst e2, subst e3, subst e4, subst e5) (simp add: imgMatched_def)
  moreover have "CHR '']'' \<notin> set a" unfolding a_def
    by (auto dest: set_takeWhileD)
  moreover have "CHR '')'' \<notin> set b" unfolding b_def
    by (auto dest: set_takeWhileD)
  moreover have "\<not> prefix placeholderPrefix (b @ '')'' @ drop 1 s4)"
    using p(3) e4 e5 by metis
  ultimately show ?thesis using p by blast
qed

lemma imgScan_shape:
  "imgScan b k s = Some (i, alt, src) \<Longrightarrow>
   \<exists>j. i = k + j \<and> j \<le> length s \<and> imgMatchHere (drop j s) = Some (alt, src)
     \<and> (if j = 0 then b else isEol (s ! (j - 1)))"
proof (induction s arbitrary: b k)
  case Nil
  then show ?case by (auto split: if_splits option.splits)
next
  case (Cons c r)
  show ?case
  proof (cases "b \<and> imgMatchHere (c # r) \<noteq> None")
    case True
    with Cons.prems have "i = k" "imgMatchHere (c # r) = Some (alt, src)" "b"
      by (auto split: if_splits option.splits)
    then show ?thesis by (intro exI [of _ 0]) simp
  next
    case False
    with Cons.prems have "imgScan (isEol c) (Suc k) r = Some (i, alt, src)"
      by (auto split: if_splits option.splits)
    from Cons.IH [OF this] obtain j where j: "i = Suc k + j" "j \<le> length r"
      "imgMatchHere (drop j r) = Some (alt, src)"
      "if j = 0 then isEol c else isEol (r ! (j - 1))"
      by blast
    show ?thesis
      by (rule exI [of _ "Suc j"]) (use j in \<open>auto split: if_splits\<close>)
  qed
qed

lemma imgExec_shape:
  assumes "imgExec text lastIndex = Some (i, alt, src)"
  shows "lastIndex \<le> i \<and> i \<le> length text \<and> imgMatchHere (drop i text) = Some (alt, src)
    \<and> (i = 0 \<or> isEol (text ! (i - 1)))"
proof -
  from assms have le: "lastIndex \<le> length text"
    and sc: "imgScan (lastIndex = 0 \<or> isEol (text ! (lastIndex - 1))) lastIndex
      (drop lastIndex text) = Some (i, alt, src)"
    by (auto simp: imgExec_def split: if_splits)
  from imgScan_shape [OF sc] obtain j where j: "i = lastIndex + j"
    "j \<le> length (drop lastIndex text)"
    "imgMatchHere (drop j (drop lastIndex text)) = Some (alt, src)"
    "if j = 0 then lastIndex = 0 \<or> isEol (text ! (lastIndex - 1))
     else isEol (drop lastIndex text ! (j - 1))"
    by blast
  have "i = 0 \<or> isEol (text ! (i - 1))"
  proof (cases "j = 0")
    case True
    with j show ?thesis by simp
  next
    case False
    with j(4) have "isEol (drop lastIndex text ! (j - 1))" by simp
    moreover have "drop lastIndex text ! (j - 1) = text ! (lastIndex + (j - 1))"
      using le by simp
    ultimately show ?thesis using False j(1) by simp
  qed
  with j le show ?thesis by (simp add: add.commute)
qed

text \<open>The loop ends: every round leaves fewer indices at or behind \<^verbatim>\<open>lastIndex\<close>
  where \<^verbatim>\<open>^\<close> holds, and the splice adds no line terminator.\<close>

definition imgMeasure :: "string \<times> nat \<times> string list \<Rightarrow> nat" where
  "imgMeasure = (\<lambda>(text, lastIndex, srcs).
     (if lastIndex = 0 then 1 else 0) + length (filter isEol (drop (lastIndex - 1) text)))"

lemma imgMeasure_lower:
  assumes "lastIndex \<le> i" "i = 0 \<or> isEol (text ! (i - 1))" "i \<le> length text"
  shows "length (filter isEol (drop i text)) < imgMeasure (text, lastIndex, srcs)"
proof (cases "i = 0")
  case True
  with assms show ?thesis by (simp add: imgMeasure_def)
next
  case False
  with assms have eol: "isEol (text ! (i - 1))" and lt: "i - 1 < length text" by auto
  have "drop (i - 1) text = text ! (i - 1) # drop i text"
    using Cons_nth_drop_Suc [OF lt] False by simp
  then have "length (filter isEol (drop (i - 1) text)) = Suc (length (filter isEol (drop i text)))"
    using eol by simp
  moreover have "length (filter isEol (drop (i - 1) text))
      \<le> length (filter isEol (drop (lastIndex - 1) text))"
    using assms(1) by (intro count_drop_le) simp
  ultimately show ?thesis by (simp add: imgMeasure_def)
qed

lemma imgLoop_decrease_skip:
  assumes "imgExec text lastIndex = Some (i, alt, src)"
  shows "imgMeasure (text, i + length (imgMatched alt src), srcs') < imgMeasure (text, lastIndex, srcs)"
proof -
  from imgExec_shape [OF assms] have sh: "lastIndex \<le> i" "i \<le> length text"
    "i = 0 \<or> isEol (text ! (i - 1))" by simp_all
  have pos: "0 < length (imgMatched alt src)" by (simp add: imgMatched_def)
  have "imgMeasure (text, i + length (imgMatched alt src), srcs')
      = length (filter isEol (drop (i + length (imgMatched alt src) - 1) text))"
    using pos by (simp add: imgMeasure_def)
  also have "\<dots> \<le> length (filter isEol (drop i text))"
    by (rule count_drop_le) (use pos in linarith)
  also have "\<dots> < imgMeasure (text, lastIndex, srcs)"
    using sh by (intro imgMeasure_lower) simp_all
  finally show ?thesis .
qed

lemma filter_isEol_imgReplaced:
  "filter isEol (imgReplaced alt src) = filter isEol (imgMatched alt src)"
  by (simp add: imgReplaced_def imgMatched_def placeholderPrefix_def placeholderSuffix_def
      isEol_def LF_def CR_def)

lemma imgLoop_decrease_replace:
  assumes "imgExec text lastIndex = Some (i, alt, src)"
  shows "imgMeasure (take i text @ imgReplaced alt src @ drop (i + length (imgMatched alt src)) text,
      i + length (imgMatched alt src), srcs') < imgMeasure (text, lastIndex, srcs)"
proof -
  from imgExec_shape [OF assms] have sh: "lastIndex \<le> i" "i \<le> length text"
    "imgMatchHere (drop i text) = Some (alt, src)"
    "i = 0 \<or> isEol (text ! (i - 1))" by simp_all
  from imgMatchHere_shape [OF sh(3)] obtain rest where
    rest: "drop i text = imgMatched alt src @ rest" by blast
  then have rest': "drop (i + length (imgMatched alt src)) text = rest"
    by (metis add.commute append_eq_conv_conj drop_drop)
  let ?m = "length (imgMatched alt src)"
  let ?t = "take i text @ imgReplaced alt src @ rest"
  have pos: "0 < ?m" by (simp add: imgMatched_def)
  have "imgMeasure (?t, i + ?m, srcs') = length (filter isEol (drop (i + ?m - 1) ?t))"
    using pos by (simp add: imgMeasure_def)
  also have "\<dots> \<le> length (filter isEol (drop i ?t))"
    by (rule count_drop_le) (use pos in linarith)
  also have "drop i ?t = imgReplaced alt src @ rest"
    using sh(2) by simp
  also have "length (filter isEol (imgReplaced alt src @ rest))
      = length (filter isEol (drop i text))"
    by (simp add: rest filter_isEol_imgReplaced)
  also have "\<dots> < imgMeasure (text, lastIndex, srcs)"
    using sh by (intro imgMeasure_lower) simp_all
  finally show ?thesis by (simp add: rest')
qed

text \<open>The \<^verbatim>\<open>while\<close> loop over one block's text. \<^verbatim>\<open>markdownTextTarget\<close> and
  \<^verbatim>\<open>markdownBlockList[i].text\<close> start equal and receive the same splice, so one string
  stands for both. The expression keeps its \<^verbatim>\<open>lastIndex\<close>, the end of the match in the
  text before the splice, and the next search starts there in the spliced text.\<close>

function imgLoop :: "string \<Rightarrow> nat \<Rightarrow> string list \<Rightarrow> string \<times> string list" where
  "imgLoop text lastIndex imgSrcList =
     (case imgExec text lastIndex of
        None \<Rightarrow> (text, imgSrcList)
      | Some (index, imgAlt, imgSrc) \<Rightarrow>
          (let next = index + length (imgMatched imgAlt imgSrc) in
           if eligible imgSrc then
             imgLoop (take index text @ imgReplaced imgAlt imgSrc @ drop next text) next
               (imgSrcList @ [imgSrc])
           else imgLoop text next imgSrcList))"
  by pat_completeness auto
termination
proof (relation "measure imgMeasure")
  show "wf (measure imgMeasure)" by simp
next
  fix t lastIndex and imgSrcList :: "string list" and x2 index y imgAlt imgSrc n
  assume "imgExec t lastIndex = Some x2" "(index, y) = x2" "(imgAlt, imgSrc) = y"
    and n: "n = index + length (imgMatched imgAlt imgSrc)"
  then have ex: "imgExec t lastIndex = Some (index, imgAlt, imgSrc)" by simp
  show "((take index t @ imgReplaced imgAlt imgSrc @ drop n t, n, imgSrcList @ [imgSrc]),
       t, lastIndex, imgSrcList) \<in> measure imgMeasure"
    using imgLoop_decrease_replace [OF ex] n by simp
  show "((t, n, imgSrcList), t, lastIndex, imgSrcList) \<in> measure imgMeasure"
    using imgLoop_decrease_skip [OF ex] n by simp
qed

declare imgLoop.simps [simp del]

text \<open>The \<^verbatim>\<open>for\<close> loop over \<^verbatim>\<open>markdownBlockList\<close>: only plain and callout blocks are
  rewritten. Every inner loop ends on \<^verbatim>\<open>null\<close>, which resets \<^verbatim>\<open>lastIndex\<close> to 0.\<close>

fun imgRewriteBlocks :: "markdownBlock list \<Rightarrow> string list \<Rightarrow> markdownBlock list \<times> string list" where
  "imgRewriteBlocks [] imgSrcList = ([], imgSrcList)"
| "imgRewriteBlocks (b # bs) imgSrcList =
     (if blockType b = plain \<or> blockType b = callout then
        (case imgLoop (blockText b) 0 imgSrcList of
           (t, srcs) \<Rightarrow>
             (case imgRewriteBlocks bs srcs of
                (bs', srcs') \<Rightarrow> (b\<lparr>blockText := t\<rparr> # bs', srcs')))
      else
        (case imgRewriteBlocks bs imgSrcList of
           (bs', srcs') \<Rightarrow> (b # bs', srcs')))"

text \<open>\<^verbatim>\<open>markdownTextReconstructed\<close> and \<^verbatim>\<open>imgSrcList\<close> of \<^verbatim>\<open>buildHtml\<close>, from the text of
  the document.\<close>

definition markdownTextReconstructed :: "string \<Rightarrow> string" where
  "markdownTextReconstructed markdownText =
     reconstruct (fst (imgRewriteBlocks (markdownBlockLoop markdownText) []))"

section \<open>The output path\<close>

text \<open>\<^verbatim>\<open>outPath.replace(/\.\w+?$/, '.html')\<close>: the first index where a dot is followed by
  word characters only, and at least one, up to the end of the path.\<close>

definition extensionAt :: "string \<Rightarrow> bool" where
  "extensionAt s = (case s of [] \<Rightarrow> False
     | c # r \<Rightarrow> c = CHR ''.'' \<and> r \<noteq> [] \<and> list_all isWordChar r)"

fun replaceExtension :: "string \<Rightarrow> string" where
  "replaceExtension [] = []"
| "replaceExtension (c # r) =
     (if extensionAt (c # r) then ''.html'' else c # replaceExtension r)"

text \<open>\<^verbatim>\<open>outPath.replace(/^([cdefghij]):\\/, ...)\<close>: the drive letter in upper case.\<close>

definition capitalizeDrive :: "string \<Rightarrow> string" where
  "capitalizeDrive s = (case s of
       p1 # c2 # c3 # r \<Rightarrow>
         (if p1 \<in> set ''cdefghij'' \<and> c2 = CHR '':'' \<and> c3 = CHR 0x5C
          then toUpperChar p1 # CHR '':'' # CHR 0x5C # r else s)
     | _ \<Rightarrow> s)"

definition deriveOutPath :: "string \<Rightarrow> string" where
  "deriveOutPath outPath =
     (let p = capitalizeDrive (replaceExtension outPath)
      in if suffix ''.html'' p then p else p @ ''.html'')"

section \<open>The formatting step\<close>

text \<open>
  \<^verbatim>\<open>format\<close> is the pretty-printer of the library \<^verbatim>\<open>prettier\<close>: a parameter here, which
  either returns the formatted text (\<^term>\<open>Inr\<close>) or throws (\<^term>\<open>Inl\<close>). The handler reads
  \<^verbatim>\<open>catch (e: any)\<close>, and a JavaScript program can throw any value, so what is thrown is a
  value of any kind: \<^verbatim>\<open>undefined\<close>, \<^verbatim>\<open>null\<close>, a boolean, a number, a string, or an object.
  An object is the list of its properties, its own and those it inherits, and a property
  holds a value, not a function; an \<^verbatim>\<open>Error\<close> is an object whose property \<^verbatim>\<open>message\<close> is a
  string. The warnings of \<^verbatim>\<open>window.showWarningMessage\<close> are a list, in the order they are
  shown; a warning keeps the parts that vary and leaves the fixed words of its message out.
\<close>

datatype jsValue =
    JsUndefined
  | JsNull
  | JsBoolean bool
  | JsNumber int
  | JsString string
  | JsObject "(string \<times> jsValue) list"









section \<open>Paths\<close>

text \<open>
  The functions of the module \<^verbatim>\<open>path\<close> of Node.js that the program calls, on a POSIX
  platform (\<^verbatim>\<open>path.sep\<close> is \<^verbatim>\<open>/\<close>). A path is cut at its separators into segments;
  \<open>cwd\<close> is the working directory of the process, which \<^verbatim>\<open>path.relative\<close> resolves
  relative paths against.
\<close>

text \<open>\<^verbatim>\<open>s.split(sep)\<close> for a separator of one character.\<close>

fun splitOn :: "char \<Rightarrow> string \<Rightarrow> string list" where
  "splitOn sep [] = [[]]"
| "splitOn sep (c # cs) =
     (if c = sep then [] # splitOn sep cs
      else (case splitOn sep cs of [] \<Rightarrow> [[c]] | l # ls \<Rightarrow> (c # l) # ls))"

fun joinWith :: "string \<Rightarrow> string list \<Rightarrow> string" where
  "joinWith sep [] = []"
| "joinWith sep [x] = x"
| "joinWith sep (x # y # ys) = x @ sep @ joinWith sep (y # ys)"

text \<open>\<^verbatim>\<open>normalizeString\<close>: empty segments and \<^verbatim>\<open>.\<close> are dropped; \<^verbatim>\<open>..\<close> removes the
  segment before it, unless there is none or it is \<^verbatim>\<open>..\<close> itself, and then \<^verbatim>\<open>..\<close> is
  kept when the path may rise above its start.\<close>

fun normalizeSegments :: "bool \<Rightarrow> string list \<Rightarrow> string list \<Rightarrow> string list" where
  "normalizeSegments allowAboveRoot res [] = res"
| "normalizeSegments allowAboveRoot res (seg # segs) =
     (if seg = [] \<or> seg = ''.'' then normalizeSegments allowAboveRoot res segs
      else if seg = ''..'' then
        (if res = [] \<or> last res = ''..'' then
           normalizeSegments allowAboveRoot (if allowAboveRoot then res @ [''..''] else res) segs
         else normalizeSegments allowAboveRoot (butlast res) segs)
      else normalizeSegments allowAboveRoot (res @ [seg]) segs)"

text \<open>\<^verbatim>\<open>path.normalize\<close> and \<^verbatim>\<open>path.join\<close> of two paths.\<close>

definition path_normalize :: "string \<Rightarrow> string" where
  "path_normalize p =
     (if p = [] then ''.''
      else
        (let isAbsolute = prefix ''/'' p;
             trailingSeparator = suffix ''/'' p;
             n = joinWith ''/'' (normalizeSegments (\<not> isAbsolute) [] (splitOn CHR ''/'' p))
         in if n = [] then (if isAbsolute then ''/'' else if trailingSeparator then ''./'' else ''.'')
            else (if isAbsolute then ''/'' else []) @ n @ (if trailingSeparator then ''/'' else [])))"

definition path_join :: "string \<Rightarrow> string \<Rightarrow> string" where
  "path_join a b =
     (if a = [] \<and> b = [] then ''.''
      else if a = [] then path_normalize b
      else if b = [] then path_normalize a
      else path_normalize (a @ ''/'' @ b))"

text \<open>\<^verbatim>\<open>path.dirname\<close>: trailing separators and the last segment are cut off, with the
  separator in front of it.\<close>

definition path_dirname :: "string \<Rightarrow> string" where
  "path_dirname p =
     (if p = [] then ''.''
      else
        (let hasRoot = prefix ''/'' p;
             r = dropWhile (\<lambda>c. c \<noteq> CHR ''/'') (dropWhile (\<lambda>c. c = CHR ''/'') (rev (tl p)))
         in if r = [] then (if hasRoot then ''/'' else ''.'')
            else if hasRoot \<and> length r = 1 then ''//''
            else take (length r) p))"

text \<open>\<^verbatim>\<open>path.basename\<close> with one argument.\<close>

definition path_basename :: "string \<Rightarrow> string" where
  "path_basename p =
     rev (takeWhile (\<lambda>c. c \<noteq> CHR ''/'') (dropWhile (\<lambda>c. c = CHR ''/'') (rev p)))"

text \<open>\<^verbatim>\<open>path.resolve\<close> of one path, as the segments of the absolute path it returns.\<close>

definition resolveSegments :: "string \<Rightarrow> string \<Rightarrow> string list" where
  "resolveSegments cwd p =
     normalizeSegments False [] (splitOn CHR ''/'' (if prefix ''/'' p then p else cwd @ ''/'' @ p))"

fun stripCommon :: "string list \<Rightarrow> string list \<Rightarrow> string list \<times> string list" where
  "stripCommon (x # xs) (y # ys) = (if x = y then stripCommon xs ys else (x # xs, y # ys))"
| "stripCommon xs ys = (xs, ys)"

text \<open>\<^verbatim>\<open>path.relative\<close>: both paths resolved, their common leading segments dropped, one
  \<^verbatim>\<open>..\<close> for every segment left of the first and then the segments left of the second.\<close>

definition path_relative :: "string \<Rightarrow> string \<Rightarrow> string \<Rightarrow> string" where
  "path_relative cwd from to =
     (if from = to then []
      else
        (let f = resolveSegments cwd from; t = resolveSegments cwd to
         in if f = t then []
            else (case stripCommon f t of
                    (f', t') \<Rightarrow> joinWith ''/'' (replicate (length f') ''..'' @ t'))))"

section \<open>The folder tree\<close>

record FileObject =
  fileName :: string
  title :: string
  filePath :: string

datatype FolderObject =
  FolderObject (folderPath: string) (folderName: string) (folderNameAlias: string)
    (folderObjectList: "FolderObject list") (fileObjectList: "FileObject list")

text \<open>One round of the loop over \<^verbatim>\<open>j\<close>, for a segment that is not the last: the pointer
  moves to the first folder of that name (\<^verbatim>\<open>find\<close>), pushed at the end of the list when
  there is none. Here the folder the pointer moves to is replaced by \<open>g\<close> of it, what the
  rest of the loop makes of it.\<close>

fun descend ::
  "string \<Rightarrow> (FolderObject \<Rightarrow> FolderObject) \<Rightarrow> FolderObject \<Rightarrow> FolderObject list \<Rightarrow> FolderObject list" where
  "descend name g fresh [] = [g fresh]"
| "descend name g fresh (c # cs) =
     (if folderName c = name then g c # cs else c # descend name g fresh cs)"

text \<open>The loop over \<^verbatim>\<open>j\<close> for one file: \<^verbatim>\<open>folderObjectPointer\<close> walks down the segments of
  the path, and the file is pushed to the folder of the last but one.\<close>

fun addFile :: "FileObject \<Rightarrow> string list \<Rightarrow> FolderObject \<Rightarrow> FolderObject" where
  "addFile f [] folder = folder"
| "addFile f [seg] (FolderObject p n a folders files) = FolderObject p n a folders (files @ [f])"
| "addFile f (seg # rest) (FolderObject p n a folders files) =
     FolderObject p n a
       (descend seg (\<lambda>c. addFile f rest c) (FolderObject (path_join p seg) seg seg [] []) folders)
       files"

text \<open>\<open>docText\<close> gives the text of the document at a path (\<^verbatim>\<open>workspace.openTextDocument\<close>);
  the title is \<^verbatim>\<open>getDocumentTitle(doc) || 'Untitled'\<close>.\<close>

definition makeFileObject :: "(string \<Rightarrow> string) \<Rightarrow> string \<Rightarrow> FileObject" where
  "makeFileObject docText markdownFilePath =
     (let t = getDocumentTitle (docText markdownFilePath)
      in \<lparr> fileName = path_basename markdownFilePath,
           title = (if t = [] then ''Untitled'' else t),
           filePath = markdownFilePath \<rparr>)"

text \<open>The loop over the sorted list of the paths, each relative to the root.\<close>

definition buildFolderObject :: "string \<Rightarrow> (string \<Rightarrow> string) \<Rightarrow> string list \<Rightarrow> FolderObject" where
  "buildFolderObject rootName docText markdownFilePaths =
     foldl (\<lambda>folderObject markdownFilePath.
              addFile (makeFileObject docText markdownFilePath)
                (splitOn CHR ''/'' markdownFilePath) folderObject)
       (FolderObject [] rootName ''root'' [] []) markdownFilePaths"

section \<open>The navigation\<close>

text \<open>\<^verbatim>\<open>.replace(/\\/g, '/').replace(/\.md$/, '.html')\<close>\<close>

definition toHtmlHref :: "string \<Rightarrow> string" where
  "toHtmlHref p =
     (let q = map (\<lambda>c. if c = CHR 0x5C then CHR ''/'' else c) p
      in if suffix ''.md'' q then take (length q - 3) q @ ''.html'' else q)"

definition fileItem :: "string \<Rightarrow> string \<Rightarrow> FileObject \<Rightarrow> string" where
  \<open>fileItem cwd relativeTargetFilePath fileObject =
     (let fileHref = toHtmlHref (path_relative cwd (path_dirname relativeTargetFilePath)
                        (filePath fileObject))
      in if relativeTargetFilePath = filePath fileObject then
           ''<li class="file active"><a href="'' @ fileHref @ ''">'' @ title fileObject @ ''</a></li>''
         else
           ''<li class="file"><a href="'' @ fileHref @ ''">'' @ title fileObject @ ''</a></li>'')\<close>

definition folderItem :: "string \<Rightarrow> string \<Rightarrow> FolderObject \<Rightarrow> string" where
  \<open>folderItem cwd relativeTargetFilePath folderObjectNext =
     (let relativeTargetFolderPath = path_dirname relativeTargetFilePath;
          folderHref = path_relative cwd (path_dirname relativeTargetFilePath)
                         (folderPath folderObjectNext)
      in if folderPath folderObjectNext = relativeTargetFolderPath then
           ''<li class="folder active"><a href="'' @ folderHref @ ''">''
             @ folderNameAlias folderObjectNext @ ''</a>''
         else
           ''<li class="folder"><a href="'' @ folderHref @ ''">''
             @ folderNameAlias folderObjectNext @ ''</a>'')\<close>

fun recursiveFileNavigationHtmlFactory ::
  "string \<Rightarrow> FolderObject \<Rightarrow> string \<Rightarrow> string \<Rightarrow> string" where
  "recursiveFileNavigationHtmlFactory cwd (FolderObject p n a folders files)
       relativeTargetFilePath fileNavigationHtmlString =
     fileNavigationHtmlString
     @ concat (map (fileItem cwd relativeTargetFilePath) files)
     @ concat (map (\<lambda>folderObjectNext.
         folderItem cwd relativeTargetFilePath folderObjectNext
         @ ''<ul>''
         @ recursiveFileNavigationHtmlFactory cwd folderObjectNext relativeTargetFilePath []
         @ ''</ul>'' @ ''</li>'') folders)"

section \<open>Notions of the properties\<close>

text \<open>
  The specification speaks of the trailing file extension of a path. Here it is what
  stands behind the last dot of the path, when that is a word (letters, digits and
  underscores, one at least); \<open>spec_stem\<close> is the path without the dot and the extension,
  and the whole path when it has no extension.
\<close>

definition spec_trailingExtension :: "string \<Rightarrow> string option" where
  "spec_trailingExtension p =
     (let e = rev (takeWhile (\<lambda>c. c \<noteq> CHR ''.'') (rev p))
      in if CHR ''.'' \<in> set p \<and> e \<noteq> [] \<and> list_all isWordChar e then Some e else None)"

definition spec_stem :: "string \<Rightarrow> string" where
  "spec_stem p = (case spec_trailingExtension p of
       Some e \<Rightarrow> take (length p - Suc (length e)) p
     | None \<Rightarrow> p)"

text \<open>
  The parts of a heading line: a run of marks \<^verbatim>\<open>#\<close>, a run of white space, and a text
  that is empty or neither begins nor ends with a character of a given class.
\<close>

definition hashRun :: "string \<Rightarrow> bool" where
  "hashRun s = list_all (\<lambda>c. c = CHR ''#'') s"

definition spaceRun :: "string \<Rightarrow> bool" where
  "spaceRun s = list_all isSpace s"

definition endsFree :: "(char \<Rightarrow> bool) \<Rightarrow> string \<Rightarrow> bool" where
  "endsFree P s = (s = [] \<or> \<not> P (hd s) \<and> \<not> P (last s))"

text \<open>A comment begins a text: the text starts with \<^verbatim>\<open><!--\<close>, and behind it, with no line
  terminator between, stands \<^verbatim>\<open>-->\<close>.\<close>

definition commentHere :: "string \<Rightarrow> bool" where
  "commentHere s = (prefix ''<!--'' s
     \<and> list_ex (\<lambda>p. suffix ''-->'' p \<and> list_all (\<lambda>c. \<not> isEol c) p) (prefixes (drop 4 s)))"


text \<open>A segment that \<^verbatim>\<open>normalizeString\<close> keeps as it is.\<close>

definition plainSegment :: "string \<Rightarrow> bool" where
  "plainSegment s = (s \<noteq> [] \<and> s \<noteq> ''.'' \<and> s \<noteq> ''..'')"

text \<open>
  A line on which the expression is decided within the line: when the line starts with
  \<^verbatim>\<open>![\<close>, a \<^verbatim>\<open>]\<close> stands behind on the same line, and when \<^verbatim>\<open>(\<close> follows that
  \<^verbatim>\<open>]\<close>, a \<^verbatim>\<open>)\<close> stands behind on the same line too. On a text of such lines no match
  runs over a line break.
\<close>

definition lineLocal :: "string \<Rightarrow> bool" where
  "lineLocal l =
     (if prefix ''!['' l then
        (let r = dropWhile (\<lambda>c. c \<noteq> CHR '']'') (drop 2 l)
         in r \<noteq> [] \<and> (if prefix '']('' r then CHR '')'' \<in> set (drop 2 r) else True))
      else True)"

text \<open>The rewrite of one line and the source it records, and a function applied to
  every line of a text, the line terminators kept.\<close>

definition rwLine :: "string \<Rightarrow> string" where
  "rwLine l = (case imgMatchHere l of
       Some (alt, src) \<Rightarrow> if eligible src then imgReplaced alt src else l
     | None \<Rightarrow> l)"

definition srcLine :: "string \<Rightarrow> string list" where
  "srcLine l = (case imgMatchHere l of
       Some (alt, src) \<Rightarrow> if eligible src then [src] else []
     | None \<Rightarrow> [])"

fun mapLinesAcc :: "(string \<Rightarrow> string) \<Rightarrow> string \<Rightarrow> string \<Rightarrow> string" where
  "mapLinesAcc f acc [] = f (rev acc)"
| "mapLinesAcc f acc (c # cs) =
     (if isEol c then f (rev acc) @ c # mapLinesAcc f [] cs else mapLinesAcc f (c # acc) cs)"

definition mapLines :: "(string \<Rightarrow> string) \<Rightarrow> string \<Rightarrow> string" where
  "mapLines f s = mapLinesAcc f [] s"

section \<open>Properties of the block scanner\<close>

lemma codeBlockMatch_prefix: "prefix (codeBlockMatch s) s"
proof -
  define delimiter where "delimiter = takeWhile (\<lambda>c. c = hd s) s"
  define r1 where "r1 = drop (length delimiter) s"
  define tag where "tag = takeWhile (\<lambda>c. \<not> isEol c) r1"
  define r2 where "r2 = drop (length tag) r1"
  define tagLine where "tagLine = (if prefix [LF] r2 then tag @ [LF] else [])"
  define r3 where "r3 = drop (length tagLine) r1"
  define body where "body = takeWhile (\<lambda>c. \<not> isEol c) r3"
  define r4 where "r4 = drop (length body) r3"
  define closing where "closing = (if prefix (LF # delimiter) r4 then LF # delimiter else [])"
  have m: "codeBlockMatch s = delimiter @ tagLine @ body @ closing"
    by (simp only: codeBlockMatch_def Let_def delimiter_def r1_def tag_def r2_def tagLine_def
        r3_def body_def r4_def closing_def)
  have 1: "s = delimiter @ r1"
    by (simp add: delimiter_def r1_def flip: dropWhile_eq_drop)
  have t: "r1 = tag @ r2"
    by (simp add: tag_def r2_def flip: dropWhile_eq_drop)
  have "prefix tagLine r1"
  proof (cases "prefix [LF] r2")
    case True
    then obtain x where "r2 = LF # x" by (auto simp: prefix_def)
    with t True show ?thesis by (simp add: tagLine_def)
  next
    case False
    then show ?thesis by (simp add: tagLine_def)
  qed
  then have 2: "r1 = tagLine @ r3" by (simp add: r3_def prefix_drop)
  have 3: "r3 = body @ r4"
    by (simp add: body_def r4_def flip: dropWhile_eq_drop)
  have "prefix closing r4" by (simp add: closing_def)
  then obtain r5 where 4: "r4 = closing @ r5" by (auto simp: prefix_def)
  have "s = (delimiter @ tagLine @ body @ closing) @ r5"
    by (subst 1, subst 2, subst 3, subst 4) simp
  with m show ?thesis unfolding prefix_def by metis
qed

text \<open>What the scanner keeps: the blocks, concatenated, are the text up to the end of the
  last match, and the rest, which is lost, has no delimiter.\<close>

lemma markdownBlockLoop_prefix:
  "\<exists>rest. t = reconstruct (markdownBlockLoop t) @ rest \<and> codeBlockIndex rest = None"
proof (induction t rule: markdownBlockLoop.induct)
  case (1 t)
  show ?case
  proof (cases "codeBlockExec t")
    case None
    then have "markdownBlockLoop t = []" "codeBlockIndex t = None"
      by (simp_all add: markdownBlockLoop.simps codeBlockExec_def split: option.splits)
    then show ?thesis by (simp add: reconstruct_def)
  next
    case (Some x)
    obtain index codeBlock where x: "x = (index, codeBlock)" by (cases x)
    with Some have ex: "codeBlockExec t = Some (index, codeBlock)" by simp
    then have cb: "codeBlock = codeBlockMatch (drop index t)"
      by (auto simp: codeBlockExec_def split: option.splits)
    then obtain u where u: "drop index t = codeBlock @ u"
      using codeBlockMatch_prefix [of "drop index t"] by (auto simp: prefix_def)
    then have d: "drop (index + length codeBlock) t = u"
      by (metis add.commute append_eq_conv_conj drop_drop)
    from "1.IH" [OF ex refl] obtain rest where
      rest: "u = reconstruct (markdownBlockLoop u) @ rest" "codeBlockIndex rest = None"
      unfolding d by blast
    have "t = take index t @ codeBlock @ u"
      using u by (metis append_take_drop_id)
    moreover have "reconstruct (markdownBlockLoop t)
        = take index t @ codeBlock @ reconstruct (markdownBlockLoop u)"
      using ex d by (subst markdownBlockLoop.simps) (simp add: reconstruct_def)
    ultimately have "t = reconstruct (markdownBlockLoop t) @ rest"
      using rest(1) by simp
    with rest(2) show ?thesis by blast
  qed
qed

text \<open>
  Claim C1 (round trip of the block scanner) says that the texts of the blocks,
  concatenated, are the text of the document. In the program the loop pushes nothing for
  the text behind the last match, so that text is lost: of a document with an
  introduction, one fenced block and a last line, the blocks are the introduction and the
  fenced block, and the reconstructed text that goes to the renderer ends with the
  closing fence.
\<close>

theorem blockScanner_drops_tail:
  "map blockText (markdownBlockLoop ''intro\<newline>```js\<newline>let x = 1\<newline>```\<newline>tail'')
     = [''intro\<newline>'', ''```js\<newline>let x = 1\<newline>```'']
   \<and> reconstruct (markdownBlockLoop ''intro\<newline>```js\<newline>let x = 1\<newline>```\<newline>tail'')
     = ''intro\<newline>```js\<newline>let x = 1\<newline>```''
   \<and> markdownTextReconstructed ''intro\<newline>```js\<newline>let x = 1\<newline>```\<newline>tail''
     = ''intro\<newline>```js\<newline>let x = 1\<newline>```''"
  by code_simp

text \<open>
  Claim C2 (no delimiter) says that a text without a run of three backticks or three
  colons gives one plain block, the whole text. In the program the loop body never runs
  for such a text, so the list of blocks is empty and the reconstructed text is the empty
  string.
\<close>

theorem blockScanner_no_delimiter_no_segment:
  "markdownBlockLoop ''# Title\<newline>plain text only'' = []
   \<and> markdownTextReconstructed ''# Title\<newline>plain text only'' = []"
  by code_simp

section \<open>Properties of the heading tree\<close>

text \<open>
  Claim C3 (a heading of depth D before any heading of depth D - 1) says that the tree is
  built without an exception. In the program, for the document of the two lines \<^verbatim>\<open>### A\<close> and \<^verbatim>\<open>## B\<close> the
  heading lines are the synthetic title and these two; at \<^verbatim>\<open>### A\<close> the slot
  \<^verbatim>\<open>tocStack[1]\<close> was never written, \<^verbatim>\<open>parent\<close> is \<^verbatim>\<open>undefined\<close> and
  \<^verbatim>\<open>parent.children\<close> throws. The same holds for the three lines given directly.
\<close>

theorem buildToc_throws_on_skipped_level:
  "tocStringList ''### A\<newline>## B'' = [''# A'', ''### A'', ''## B'']
   \<and> buildToc (tocStringList ''### A\<newline>## B'') = Inl TypeError
   \<and> buildToc [''# Title'', ''### A'', ''## B''] = Inl TypeError"
  by code_simp

text \<open>
  Claim C4 says that a heading line inside a fenced block is no entry of the table of
  contents. In the program only a fenced block that the document starts with is removed
  before the heading lines are collected. In a document with a title, a fenced block and a heading, the line
  \<^verbatim>\<open>## inside\<close> of the fenced block is a heading line and a node of the tree; in a
  document that starts with the same fenced block it is not a heading line (the title
  still comes from it).
\<close>

theorem tocStringList_keeps_fenced_heading:
  "tocStringList ''# Doc\<newline>```\<newline>## inside\<newline>```\<newline>## Real''
     = [''# Doc'', ''## inside'', ''## Real'']
   \<and> map_sum id (\<lambda>st. map headerText (store st))
        (buildToc (tocStringList ''# Doc\<newline>```\<newline>## inside\<newline>```\<newline>## Real''))
     = Inr [''Doc'', ''inside'', ''Real'']
   \<and> tocStringList ''```\<newline>## inside\<newline>```\<newline>## Real\<newline>## More''
     = [''# inside'', ''## Real'', ''## More'']"
  by code_simp

text \<open>
  Claim C6 (the tree of four heading lines, and a slug): from the lines \<^verbatim>\<open># Title\<close>,
  \<^verbatim>\<open>## A\<close>, \<^verbatim>\<open>### A1\<close>, \<^verbatim>\<open>## B\<close> the loop makes four objects, numbered 0 to 3 in the
  store. The only root is object 0, Title; its children are objects 1 and 3, A and B in
  this order; the only child of A is object 2, A1; A1 and B have no children. The slug of
  the heading text \<^verbatim>\<open>Foo Bar\<close> is \<^verbatim>\<open>foo-bar\<close>, also after the encoding.
\<close>

theorem buildToc_example:
  "buildToc [''# Title'', ''## A'', ''### A1'', ''## B''] =
     Inr \<lparr> store =
             [\<lparr> header = ''# Title'', headerLevel = 1, headerText = ''Title'',
                headerId = ''title'', headerIdEncoded = ''title'', children = [1, 3] \<rparr>,
              \<lparr> header = ''## A'', headerLevel = 2, headerText = ''A'',
                headerId = ''a'', headerIdEncoded = ''a'', children = [2] \<rparr>,
              \<lparr> header = ''### A1'', headerLevel = 3, headerText = ''A1'',
                headerId = ''a1'', headerIdEncoded = ''a1'', children = [] \<rparr>,
              \<lparr> header = ''## B'', headerLevel = 2, headerText = ''B'',
                headerId = ''b'', headerIdEncoded = ''b'', children = [] \<rparr>],
           tocString = [0],
           tocStack = [Some 0, Some 3, Some 2] \<rparr>
   \<and> headerId (makeHeaderObject ''## Foo Bar'') = ''foo-bar''
   \<and> slugId ''Foo Bar'' = ''foo-bar''
   \<and> slugIdEncoded (slugId ''Foo Bar'') = ''foo-bar''"
  by code_simp

section \<open>Properties of the document title\<close>

lemma splitLines_line:
  "list_all (\<lambda>c. \<not> isEol c) l \<Longrightarrow> splitLines l = [l]"
  by (induction l) (auto split: list.splits)

lemma splitLines_append_eol:
  "list_all (\<lambda>c. \<not> isEol c) l \<Longrightarrow> isEol e \<Longrightarrow> splitLines (l @ e # r) = l # splitLines r"
  by (induction l) (auto split: list.splits)

lemma splitLines_joinWith:
  "list_all (list_all (\<lambda>c. \<not> isEol c)) ls \<Longrightarrow> ls \<noteq> [] \<Longrightarrow>
   splitLines (joinWith [LF] ls) = ls"
proof (induction "[LF]" ls rule: joinWith.induct)
  case 1
  then show ?case by simp
next
  case (2 x)
  then show ?case by (simp add: splitLines_line)
next
  case (3 x y ys)
  have "isEol LF" by (simp add: isEol_def)
  with 3 show ?case by (simp add: splitLines_append_eol)
qed

lemma atxLine_prefix: "atxLine 1 6 l \<Longrightarrow> prefix ''#'' l"
  by (cases l) (auto simp: atxLine_def hashes_def Let_def split: if_splits)

lemma find_first:
  "list_all (\<lambda>x. \<not> P x) pre \<Longrightarrow> P l \<Longrightarrow> find P (pre @ l # post) = Some l"
  by (induction pre) auto

lemma dropWhile_all: "list_all P a \<Longrightarrow> list_all P b \<Longrightarrow> dropWhile P (a @ b) = []"
  by (induction a) (simp_all add: dropWhile_eq_Nil_conv list_all_iff)

lemma dropWhile_front:
  "list_all P a \<Longrightarrow> m \<noteq> [] \<Longrightarrow> \<not> P (hd m) \<Longrightarrow> dropWhile P (a @ m @ b) = m @ b"
  by (induction a) (cases m; simp)+

lemma dropWhile_back:
  assumes "list_all P b" "m \<noteq> []" "\<not> P (last m)"
  shows "rev (dropWhile P (rev (m @ b))) = m"
proof -
  from assms(2) obtain m' x where m: "m = m' @ [x]" by (cases m rule: rev_cases) auto
  with assms(3) have x: "\<not> P x" by simp
  have "rev (m @ b) = rev b @ x # rev m'" by (simp add: m)
  moreover from assms(1) have "list_all P (rev b)" by (simp add: list_all_iff)
  ultimately have "dropWhile P (rev (m @ b)) = x # rev m'"
    using dropWhile_front [of P "rev b" "x # rev m'" "[]"] x by simp
  then show ?thesis by (simp add: m)
qed

lemma strip_ends:
  assumes "list_all P a" "list_all P b" "endsFree P m"
  shows "rev (dropWhile P (rev (dropWhile P (a @ m @ b)))) = m"
proof (cases "m = []")
  case True
  from assms(1,2) have "dropWhile P (a @ b) = []" by (rule dropWhile_all)
  with True have "dropWhile P (a @ m @ b) = []" by (simp only: append_Nil)
  then have "rev (dropWhile P (rev (dropWhile P (a @ m @ b)))) = []"
    by (simp only: rev.simps dropWhile.simps)
  with True show ?thesis by (simp only:)
next
  case False
  with assms(3) have hd: "\<not> P (hd m)" and last: "\<not> P (last m)" by (auto simp: endsFree_def)
  have "dropWhile P (a @ m @ b) = m @ b" using assms(1) False hd by (rule dropWhile_front)
  moreover have "rev (dropWhile P (rev (m @ b))) = m" using assms(2) False last by (rule dropWhile_back)
  ultimately show ?thesis by (simp only:)
qed

lemma trim_ends: "spaceRun a \<Longrightarrow> spaceRun b \<Longrightarrow> endsFree isSpace m \<Longrightarrow> trim (a @ m @ b) = m"
  unfolding trim_def spaceRun_def by (rule strip_ends)

lemma titleOfLine_decomposition:
  assumes c: "removeComments l = w1 @ h1 @ w2 @ r @ w3 @ h2 @ w4"
    and w: "spaceRun w1" "spaceRun w2" "spaceRun w3" "spaceRun w4"
    and h: "hashRun h1" "hashRun h2"
    and core: "endsFree isSpace (h1 @ w2 @ r @ w3 @ h2)"
    and m: "endsFree (\<lambda>c. c = CHR ''#'') (w2 @ r @ w3)"
    and r: "endsFree isSpace r"
  shows "titleOfLine l = r"
proof -
  define mid where "mid = w2 @ r @ w3"
  let ?H = "\<lambda>c. c = CHR ''#''"
  have "trim (w1 @ (h1 @ w2 @ r @ w3 @ h2) @ w4) = h1 @ w2 @ r @ w3 @ h2"
    using w(1) w(4) core by (rule trim_ends)
  then have 1: "trim (removeComments l) = h1 @ mid @ h2"
    by (simp add: c mid_def)
  have tr: "trim mid = r" unfolding mid_def using w(2,3) r by (rule trim_ends)
  show ?thesis
  proof (cases "mid = []")
    case True
    from h have "dropWhile ?H (h1 @ h2) = []"
      unfolding hashRun_def by (rule dropWhile_all)
    with True have "stripLeadingHashes (h1 @ mid @ h2) = []"
      by (simp only: stripLeadingHashes_def append_Nil)
    then have "titleOfLine l = trim []"
      by (simp only: titleOfLine_def 1 stripTrailingHashes_def rev.simps dropWhile.simps)
    with tr True show ?thesis by (simp only:)
  next
    case False
    with m have hd: "\<not> ?H (hd mid)" and last: "\<not> ?H (last mid)"
      by (auto simp: endsFree_def mid_def)
    from h have h': "list_all ?H h1" "list_all ?H h2" by (simp_all only: hashRun_def)
    have "dropWhile ?H (h1 @ mid @ h2) = mid @ h2" using h'(1) False hd by (rule dropWhile_front)
    then have 2: "stripLeadingHashes (h1 @ mid @ h2) = mid @ h2"
      by (simp only: stripLeadingHashes_def)
    have "rev (dropWhile ?H (rev (mid @ h2))) = mid" using h'(2) False last by (rule dropWhile_back)
    then have 3: "stripTrailingHashes (mid @ h2) = mid"
      by (simp only: stripTrailingHashes_def)
    from tr show ?thesis by (simp only: titleOfLine_def 1 2 3)
  qed
qed

lemma ends_decomposition:
  "\<exists>a m b. s = a @ m @ b \<and> list_all P a \<and> list_all P b \<and> endsFree P m"
proof -
  define a where "a = takeWhile P s"
  define rest where "rest = dropWhile P s"
  define b where "b = rev (takeWhile P (rev rest))"
  define m where "m = rev (dropWhile P (rev rest))"
  have s: "s = a @ rest" by (simp add: a_def rest_def)
  have "rev rest = takeWhile P (rev rest) @ dropWhile P (rev rest)" by simp
  then have "rev (rev rest) = rev (takeWhile P (rev rest) @ dropWhile P (rev rest))" by simp
  then have rest: "rest = m @ b" by (simp add: m_def b_def del: takeWhile_dropWhile_id)
  have a: "list_all P a" by (auto simp: a_def list_all_iff dest: set_takeWhileD)
  have b: "list_all P b" by (auto simp: b_def list_all_iff dest: set_takeWhileD)
  have "endsFree P m"
  proof (cases "m = []")
    case True
    then show ?thesis by (simp add: endsFree_def)
  next
    case False
    then have "dropWhile P (rev rest) \<noteq> []" by (simp add: m_def)
    then have "\<not> P (hd (dropWhile P (rev rest)))" by (rule hd_dropWhile)
    then have l: "\<not> P (last m)" by (simp add: m_def last_rev)
    from False rest have "rest \<noteq> []" "hd m = hd rest" by auto
    then have "\<not> P (hd m)" using hd_dropWhile [of P s] by (simp add: rest_def)
    with l show ?thesis by (simp add: endsFree_def)
  qed
  with s rest a b show ?thesis by blast
qed

lemma titleOfLine_decomposition_exists:
  "\<exists>v1 g1 v2 x v3 g2 v4. removeComments l = v1 @ g1 @ v2 @ x @ v3 @ g2 @ v4
     \<and> spaceRun v1 \<and> spaceRun v2 \<and> spaceRun v3 \<and> spaceRun v4 \<and> hashRun g1 \<and> hashRun g2
     \<and> endsFree isSpace (g1 @ v2 @ x @ v3 @ g2)
     \<and> endsFree (\<lambda>c. c = CHR ''#'') (v2 @ x @ v3)
     \<and> endsFree isSpace x
     \<and> titleOfLine l = x"
proof -
  obtain w1 core w4 where 1: "removeComments l = w1 @ core @ w4" "spaceRun w1" "spaceRun w4"
      "endsFree isSpace core"
    using ends_decomposition [of "removeComments l" isSpace] unfolding spaceRun_def by blast
  obtain h1 m h2 where 2: "core = h1 @ m @ h2" "hashRun h1" "hashRun h2"
      "endsFree (\<lambda>c. c = CHR ''#'') m"
    using ends_decomposition [of core "\<lambda>c. c = CHR ''#''"] unfolding hashRun_def by blast
  obtain w2 r w3 where 3: "m = w2 @ r @ w3" "spaceRun w2" "spaceRun w3" "endsFree isSpace r"
    using ends_decomposition [of m isSpace] unfolding spaceRun_def by blast
  have c: "removeComments l = w1 @ h1 @ w2 @ r @ w3 @ h2 @ w4"
    by (simp add: 1(1) 2(1) 3(1))
  have core: "endsFree isSpace (h1 @ w2 @ r @ w3 @ h2)"
    using 1(4) by (simp add: 2(1) 3(1))
  have m: "endsFree (\<lambda>c. c = CHR ''#'') (w2 @ r @ w3)"
    using 2(4) by (simp add: 3(1))
  have "titleOfLine l = r"
    using c 1(2) 3(2,3) 1(3) 2(2,3) core m 3(4) by (rule titleOfLine_decomposition)
  with c 1(2,3) 2(2,3) 3(2,3,4) core m show ?thesis by blast
qed

lemma findCommentEnd_body:
  "list_all (\<lambda>c. \<not> isEol c) body \<Longrightarrow> \<not> sublist ''-->'' (body @ ''--'')
   \<Longrightarrow> findCommentEnd (body @ ''-->'' @ v) = Some v"
proof (induction body)
  case Nil
  then show ?case by simp
next
  case (Cons b bs)
  have np: "\<not> prefix ''-->'' (b # bs @ ''-->'' @ v)"
  proof
    assume p: "prefix ''-->'' (b # bs @ ''-->'' @ v)"
    then have "prefix ''-->'' ((b # bs) @ ''--'')"
      by (cases bs; cases "tl bs") auto
    then have "sublist ''-->'' ((b # bs) @ ''--'')" by (rule prefix_imp_sublist)
    with Cons.prems(2) show False by simp
  qed
  from Cons.prems(2) have "\<not> sublist ''-->'' (bs @ ''--'')"
    by (simp add: sublist_Cons_right)
  with Cons.IH Cons.prems(1) have ih: "findCommentEnd (bs @ ''-->'' @ v) = Some v" by simp
  from Cons.prems(1) have e: "\<not> isEol b" by simp
  have "findCommentEnd (b # bs @ ''-->'' @ v) = findCommentEnd (bs @ ''-->'' @ v)"
    by (subst findCommentEnd.simps) (use np e in \<open>simp only: if_False\<close>)
  with ih show ?case by (simp only: append_Cons)
qed

lemma removeComments_comment:
  "list_all (\<lambda>c. \<not> isEol c) body \<Longrightarrow> \<not> sublist ''-->'' (body @ ''--'')
   \<Longrightarrow> removeComments (''<!--'' @ body @ ''-->'' @ v) = removeComments v"
  using findCommentEnd_body [of body v] by simp

lemma findCommentEnd_Some:
  "findCommentEnd w = Some rest \<Longrightarrow>
   \<exists>body. w = body @ ''-->'' @ rest \<and> list_all (\<lambda>c. \<not> isEol c) body"
proof (induction w)
  case Nil
  then show ?case by simp
next
  case (Cons c r)
  show ?case
  proof (cases "prefix ''-->'' (c # r)")
    case True
    have "findCommentEnd (c # r) = Some (drop 3 (c # r))"
      by (subst findCommentEnd.simps) (use True in \<open>simp only: if_True\<close>)
    with Cons.prems have rest: "rest = drop 3 (c # r)" by simp
    from True obtain v where v: "c # r = ''-->'' @ v" by (auto simp: prefix_def)
    then have "drop 3 (c # r) = v" by simp
    with rest v have "c # r = [] @ ''-->'' @ rest \<and> list_all (\<lambda>c. \<not> isEol c) []" by simp
    then show ?thesis by blast
  next
    case False
    have "findCommentEnd (c # r) = (if isEol c then None else findCommentEnd r)"
      by (subst findCommentEnd.simps) (use False in \<open>simp only: if_False\<close>)
    with Cons.prems have e: "\<not> isEol c" and "findCommentEnd r = Some rest"
      by (auto split: if_splits)
    with Cons.IH obtain body where "r = body @ ''-->'' @ rest" "list_all (\<lambda>c. \<not> isEol c) body"
      by blast
    with e have "c # r = (c # body) @ ''-->'' @ rest \<and> list_all (\<lambda>c. \<not> isEol c) (c # body)"
      by simp
    then show ?thesis by blast
  qed
qed

lemma eol_free_arrow: "list_all (\<lambda>c. \<not> isEol c) ''-->''"
  by code_simp

lemma commentHere_iff:
  "commentHere s = (\<exists>body v. s = ''<!--'' @ body @ ''-->'' @ v \<and> list_all (\<lambda>c. \<not> isEol c) body)"
proof
  assume "commentHere s"
  then obtain p where s: "prefix ''<!--'' s" and p: "prefix p (drop 4 s)" "suffix ''-->'' p"
      "list_all (\<lambda>c. \<not> isEol c) p"
    by (auto simp: commentHere_def list_ex_iff)
  from p(2) obtain body where body: "p = body @ ''-->''" by (auto simp: suffix_def)
  from p(1) obtain v where v: "drop 4 s = p @ v" by (auto simp: prefix_def)
  from s have "s = ''<!--'' @ drop 4 s" by (auto simp: prefix_def)
  with v body have "s = ''<!--'' @ body @ ''-->'' @ v" by simp
  moreover from p(3) body have "list_all (\<lambda>c. \<not> isEol c) body" by simp
  ultimately show "\<exists>body v. s = ''<!--'' @ body @ ''-->'' @ v \<and> list_all (\<lambda>c. \<not> isEol c) body"
    by blast
next
  assume "\<exists>body v. s = ''<!--'' @ body @ ''-->'' @ v \<and> list_all (\<lambda>c. \<not> isEol c) body"
  then obtain body v where s: "s = ''<!--'' @ body @ ''-->'' @ v" and b: "list_all (\<lambda>c. \<not> isEol c) body"
    by blast
  have "prefix (body @ ''-->'') (drop 4 s)" by (simp add: s)
  moreover have "suffix ''-->'' (body @ ''-->'')" by (simp add: suffix_def)
  moreover have "list_all (\<lambda>c. \<not> isEol c) (body @ ''-->'')" using b eol_free_arrow by simp
  moreover have "prefix ''<!--'' s" by (simp add: s)
  ultimately show "commentHere s"
    unfolding commentHere_def list_ex_iff by (metis in_set_prefixes)
qed

lemma removeComments_no_comment:
  assumes "\<not> commentHere s"
  shows "removeComments s = (case s of [] \<Rightarrow> [] | c # r \<Rightarrow> c # removeComments r)"
proof (cases s)
  case Nil
  then show ?thesis by simp
next
  case (Cons c r)
  show ?thesis
  proof (cases "prefix ''<!--'' s")
    case False
    have "removeComments (c # r) = c # removeComments r"
      by (subst removeComments.simps) (use False Cons in \<open>simp only: if_False\<close>)
    with Cons show ?thesis by simp
  next
    case True
    have "findCommentEnd (drop 4 s) = None"
    proof (rule ccontr)
      assume "findCommentEnd (drop 4 s) \<noteq> None"
      then obtain rest where "findCommentEnd (drop 4 s) = Some rest" by blast
      from findCommentEnd_Some [OF this] obtain body where
        "drop 4 s = body @ ''-->'' @ rest" "list_all (\<lambda>c. \<not> isEol c) body" by blast
      moreover from True have "s = ''<!--'' @ drop 4 s" by (auto simp: prefix_def)
      ultimately have "s = ''<!--'' @ body @ ''-->'' @ rest \<and> list_all (\<lambda>c. \<not> isEol c) body"
        by simp
      then have "commentHere s" unfolding commentHere_iff by blast
      with assms show False by simp
    qed
    moreover have "removeComments (c # r) = (case findCommentEnd (drop 4 (c # r)) of
        Some rest \<Rightarrow> removeComments rest | None \<Rightarrow> c # removeComments r)"
      by (subst removeComments.simps) (use True Cons in \<open>simp only: if_True\<close>)
    ultimately show ?thesis using Cons by simp
  qed
qed

lemma takeWhile_eq_replicate: "takeWhile (\<lambda>c. c = x) s = replicate (length (takeWhile (\<lambda>c. c = x) s)) x"
  by (induction s) auto

lemma atxLine_iff:
  "atxLine lo hi l = (\<exists>n rest. lo \<le> n \<and> n \<le> hi \<and> l = replicate n CHR ''#'' @ CHR '' '' # rest)"
proof
  assume a: "atxLine lo hi l"
  define n where "n = hashes l"
  from a obtain rest where "lo \<le> n" "n \<le> hi" "drop n l = CHR '' '' # rest"
    by (auto simp: atxLine_def Let_def n_def split: list.splits)
  moreover have "l = takeWhile (\<lambda>c. c = CHR ''#'') l @ drop n l"
    by (simp add: n_def hashes_def dropWhile_eq_drop [symmetric])
  moreover have "takeWhile (\<lambda>c. c = CHR ''#'') l = replicate n CHR ''#''"
    unfolding n_def hashes_def by (rule takeWhile_eq_replicate)
  ultimately have "lo \<le> n \<and> n \<le> hi \<and> l = replicate n CHR ''#'' @ CHR '' '' # rest" by simp
  then show "\<exists>n rest. lo \<le> n \<and> n \<le> hi \<and> l = replicate n CHR ''#'' @ CHR '' '' # rest" by blast
next
  assume "\<exists>n rest. lo \<le> n \<and> n \<le> hi \<and> l = replicate n CHR ''#'' @ CHR '' '' # rest"
  then obtain n rest where n: "lo \<le> n" "n \<le> hi" and l: "l = replicate n CHR ''#'' @ CHR '' '' # rest"
    by blast
  have "takeWhile (\<lambda>c. c = CHR ''#'') l = replicate n CHR ''#''"
    unfolding l by (subst takeWhile_append2) auto
  then have "hashes l = n" by (simp add: hashes_def)
  with n show "atxLine lo hi l" by (simp add: atxLine_def l)
qed

lemma isSpace_chars: "isSpace k = (of_char k \<in> {9, 10, 11, 12, 13, 32, 160 :: nat})"
proof -
  have "k = CHR 0x09 \<longleftrightarrow> of_char k = (9::nat)" "k = CHR 0x0A \<longleftrightarrow> of_char k = (10::nat)"
    "k = CHR 0x0B \<longleftrightarrow> of_char k = (11::nat)" "k = CHR 0x0C \<longleftrightarrow> of_char k = (12::nat)"
    "k = CHR 0x0D \<longleftrightarrow> of_char k = (13::nat)" "k = CHR 0x20 \<longleftrightarrow> of_char k = (32::nat)"
    "k = CHR 0xA0 \<longleftrightarrow> of_char k = (160::nat)"
    by (cases k; simp; fail)+
  then show ?thesis by (simp add: isSpace_def)
qed

lemma isEol_chars: "isEol k = (k = CHR 0x0A \<or> k = CHR 0x0D)"
  by (simp add: isEol_def LF_def CR_def)
text \<open>
  Claim C10 (the title comes from the raw text): \<^verbatim>\<open>getDocumentTitle\<close> looks at every line
  of the text, whatever block the line stands in. When the lines of a text, cut at every
  line feed and carriage return, are some lines without one to six marks and a space,
  then a line \<open>l\<close> with them, then any lines, the title is made from \<open>l\<close>: its comments,
  its marks and the white space around them taken off; so it is for a document written
  as lines with line feeds between them. What stands before \<open>l\<close>, a fence opener
  included, plays no part, and the synthetic first heading line is \<^verbatim>\<open>#\<close>, a space and
  this title. The fallback \<^verbatim>\<open>Untitled\<close> is the title when no line of the text has the
  marks and the space.

  What is taken off is fixed as follows. A line has the marks and the space when it is
  one to six \<^verbatim>\<open>#\<close>, a space, and any text. The title of a line is the text \<open>r\<close> when the
  line without its comments is white space, marks, white space, \<open>r\<close>, white space, marks,
  white space, where the marks are all the marks at either end and \<open>r\<close> is empty or has
  no white space at its ends; every line is of this form. Removing the comments goes
  from left to right: a text that begins with \<^verbatim>\<open><!--\<close>, a body without line terminator up
  to the first \<^verbatim>\<open>-->\<close> behind, loses them, and a text that does not begin with a comment
  keeps its first character. The white space is tab, line feed, vertical tab, form feed,
  carriage return, space and no-break space (the code units 9 to 13, 32 and 160); the
  lines are cut at every line feed and every carriage return.
\<close>

theorem getDocumentTitle_scans_every_line:
  "(splitLines t = pre @ l # post \<and> list_all (\<lambda>x. \<not> atxLine 1 6 x) pre \<and> atxLine 1 6 l
    \<longrightarrow> getDocumentTitle t = titleOfLine l \<and> hd (tocStringList t) = ''# '' @ titleOfLine l)
   \<and> (list_all (list_all (\<lambda>c. \<not> isEol c)) (pre @ l # post)
      \<and> list_all (\<lambda>x. \<not> atxLine 1 6 x) pre \<and> atxLine 1 6 l
    \<longrightarrow> getDocumentTitle (joinWith [LF] (pre @ l # post)) = titleOfLine l
      \<and> hd (tocStringList (joinWith [LF] (pre @ l # post))) = ''# '' @ titleOfLine l)
   \<and> (list_all (\<lambda>x. \<not> atxLine 1 6 x) (splitLines t) \<longrightarrow> getDocumentTitle t = ''Untitled'')
   \<and> atxLine 1 6 l
      = (\<exists>n y. 1 \<le> n \<and> n \<le> 6 \<and> l = replicate n CHR ''#'' @ CHR '' '' # y)
   \<and> (removeComments l = w1 @ h1 @ w2 @ r @ w3 @ h2 @ w4
      \<and> spaceRun w1 \<and> spaceRun w2 \<and> spaceRun w3 \<and> spaceRun w4 \<and> hashRun h1 \<and> hashRun h2
      \<and> endsFree isSpace (h1 @ w2 @ r @ w3 @ h2)
      \<and> endsFree (\<lambda>c. c = CHR ''#'') (w2 @ r @ w3)
      \<and> endsFree isSpace r
    \<longrightarrow> titleOfLine l = r)
   \<and> (\<exists>v1 g1 v2 x v3 g2 v4. removeComments l = v1 @ g1 @ v2 @ x @ v3 @ g2 @ v4
      \<and> spaceRun v1 \<and> spaceRun v2 \<and> spaceRun v3 \<and> spaceRun v4 \<and> hashRun g1 \<and> hashRun g2
      \<and> endsFree isSpace (g1 @ v2 @ x @ v3 @ g2)
      \<and> endsFree (\<lambda>c. c = CHR ''#'') (v2 @ x @ v3)
      \<and> endsFree isSpace x
      \<and> titleOfLine l = x)
   \<and> (list_all (\<lambda>c. \<not> isEol c) body \<and> \<not> sublist ''-->'' (body @ ''--'')
    \<longrightarrow> removeComments (''<!--'' @ body @ ''-->'' @ v) = removeComments v)
   \<and> (\<not> commentHere s
    \<longrightarrow> removeComments s = (case s of [] \<Rightarrow> [] | c # cs \<Rightarrow> c # removeComments cs))
   \<and> commentHere s
      = (\<exists>b y. s = ''<!--'' @ b @ ''-->'' @ y \<and> list_all (\<lambda>c. \<not> isEol c) b)
   \<and> isSpace k = (of_char k \<in> {9, 10, 11, 12, 13, 32, 160 :: nat})
   \<and> isEol k = (k = CHR 0x0A \<or> k = CHR 0x0D)
   \<and> (list_all (\<lambda>c. \<not> isEol c) u \<longrightarrow> splitLines u = [u])
   \<and> (list_all (\<lambda>c. \<not> isEol c) u \<and> isEol e \<longrightarrow> splitLines (u @ e # z) = u # splitLines z)"
proof (intro conjI)
  let ?P = "\<lambda>lineText. prefix ''#'' lineText \<and> atxLine 1 6 lineText"
  have first: "getDocumentTitle d = titleOfLine l \<and> hd (tocStringList d) = ''# '' @ titleOfLine l"
    if sp: "splitLines d = pre @ l # post" and pre: "list_all (\<lambda>x. \<not> atxLine 1 6 x) pre"
      and l: "atxLine 1 6 l" for d
  proof -
    from pre l have "list_all (\<lambda>x. \<not> ?P x) pre" "?P l"
      by (auto simp: list_all_iff atxLine_prefix)
    then have "find ?P (pre @ l # post) = Some l" by (rule find_first)
    with sp have "getDocumentTitle d = titleOfLine l"
      by (simp add: getDocumentTitle_def)
    then show ?thesis by (simp add: tocStringList_def)
  qed
  have joined: "splitLines (joinWith [LF] (pre @ l # post)) = pre @ l # post"
    if "list_all (list_all (\<lambda>c. \<not> isEol c)) (pre @ l # post)"
    using that by (intro splitLines_joinWith) simp_all
  have fallback: "getDocumentTitle t = ''Untitled''"
    if "list_all (\<lambda>x. \<not> atxLine 1 6 x) (splitLines t)"
  proof -
    from that have "find ?P (splitLines t) = None"
      by (simp add: find_None_iff list_all_iff)
    then show ?thesis by (simp add: getDocumentTitle_def)
  qed
  from first show "splitLines t = pre @ l # post \<and> list_all (\<lambda>x. \<not> atxLine 1 6 x) pre \<and> atxLine 1 6 l
    \<longrightarrow> getDocumentTitle t = titleOfLine l \<and> hd (tocStringList t) = ''# '' @ titleOfLine l"
    by blast
  from first joined show "list_all (list_all (\<lambda>c. \<not> isEol c)) (pre @ l # post)
      \<and> list_all (\<lambda>x. \<not> atxLine 1 6 x) pre \<and> atxLine 1 6 l
    \<longrightarrow> getDocumentTitle (joinWith [LF] (pre @ l # post)) = titleOfLine l
      \<and> hd (tocStringList (joinWith [LF] (pre @ l # post))) = ''# '' @ titleOfLine l"
    by blast
  from fallback show "list_all (\<lambda>x. \<not> atxLine 1 6 x) (splitLines t) \<longrightarrow> getDocumentTitle t = ''Untitled''"
    by blast
  show "atxLine 1 6 l = (\<exists>n y. 1 \<le> n \<and> n \<le> 6 \<and> l = replicate n CHR ''#'' @ CHR '' '' # y)"
    by (rule atxLine_iff)
  show "removeComments l = w1 @ h1 @ w2 @ r @ w3 @ h2 @ w4
      \<and> spaceRun w1 \<and> spaceRun w2 \<and> spaceRun w3 \<and> spaceRun w4 \<and> hashRun h1 \<and> hashRun h2
      \<and> endsFree isSpace (h1 @ w2 @ r @ w3 @ h2)
      \<and> endsFree (\<lambda>c. c = CHR ''#'') (w2 @ r @ w3)
      \<and> endsFree isSpace r
    \<longrightarrow> titleOfLine l = r"
  proof
    assume "removeComments l = w1 @ h1 @ w2 @ r @ w3 @ h2 @ w4
      \<and> spaceRun w1 \<and> spaceRun w2 \<and> spaceRun w3 \<and> spaceRun w4 \<and> hashRun h1 \<and> hashRun h2
      \<and> endsFree isSpace (h1 @ w2 @ r @ w3 @ h2)
      \<and> endsFree (\<lambda>c. c = CHR ''#'') (w2 @ r @ w3)
      \<and> endsFree isSpace r"
    then have "removeComments l = w1 @ h1 @ w2 @ r @ w3 @ h2 @ w4"
      "spaceRun w1" "spaceRun w2" "spaceRun w3" "spaceRun w4" "hashRun h1" "hashRun h2"
      "endsFree isSpace (h1 @ w2 @ r @ w3 @ h2)"
      "endsFree (\<lambda>c. c = CHR ''#'') (w2 @ r @ w3)"
      "endsFree isSpace r"
      by blast+
    then show "titleOfLine l = r" by (rule titleOfLine_decomposition)
  qed
  show "\<exists>v1 g1 v2 x v3 g2 v4. removeComments l = v1 @ g1 @ v2 @ x @ v3 @ g2 @ v4
      \<and> spaceRun v1 \<and> spaceRun v2 \<and> spaceRun v3 \<and> spaceRun v4 \<and> hashRun g1 \<and> hashRun g2
      \<and> endsFree isSpace (g1 @ v2 @ x @ v3 @ g2)
      \<and> endsFree (\<lambda>c. c = CHR ''#'') (v2 @ x @ v3)
      \<and> endsFree isSpace x
      \<and> titleOfLine l = x"
    by (rule titleOfLine_decomposition_exists)
  show "list_all (\<lambda>c. \<not> isEol c) body \<and> \<not> sublist ''-->'' (body @ ''--'')
    \<longrightarrow> removeComments (''<!--'' @ body @ ''-->'' @ v) = removeComments v"
    using removeComments_comment [of body v] by blast
  show "\<not> commentHere s
    \<longrightarrow> removeComments s = (case s of [] \<Rightarrow> [] | c # cs \<Rightarrow> c # removeComments cs)"
    using removeComments_no_comment [of s] by blast
  show "commentHere s
      = (\<exists>b y. s = ''<!--'' @ b @ ''-->'' @ y \<and> list_all (\<lambda>c. \<not> isEol c) b)"
    by (rule commentHere_iff)
  show "isSpace k = (of_char k \<in> {9, 10, 11, 12, 13, 32, 160 :: nat})"
    by (rule isSpace_chars)
  show "isEol k = (k = CHR 0x0A \<or> k = CHR 0x0D)"
    by (rule isEol_chars)
  show "list_all (\<lambda>c. \<not> isEol c) u \<longrightarrow> splitLines u = [u]"
    using splitLines_line [of u] by blast
  show "list_all (\<lambda>c. \<not> isEol c) u \<and> isEol e \<longrightarrow> splitLines (u @ e # z) = u # splitLines z"
    using splitLines_append_eol [of u e z] by blast
qed

text \<open>The theorem at a document whose first heading line stands in a fenced block and
  carries a comment and closing marks, at a document with carriage returns and line
  feeds, and at a document without a heading line; then at the parts of that heading
  line, at a comment, at a text that does not begin with one, and at two texts to cut
  into lines.\<close>

theorem getDocumentTitle_scans_every_line_witness:
  "getDocumentTitle ''intro\<newline>```\<newline># Intro <!-- c --> ##\<newline>```\<newline>## Real'' = ''Intro''
   \<and> hd (tocStringList ''intro\<newline>```\<newline># Intro <!-- c --> ##\<newline>```\<newline>## Real'') = ''# Intro''
   \<and> map blockType (markdownBlockLoop ''intro\<newline>```\<newline># Intro <!-- c --> ##\<newline>```\<newline>## Real'') = [plain, code]
   \<and> getDocumentTitle (''text'' @ [CR, LF] @ ''### Third'' @ [CR, LF]) = ''Third''
   \<and> getDocumentTitle ''no heading\<newline>#hash only'' = ''Untitled''
   \<and> removeComments ''# Intro <!-- c --> ##'' = ''# Intro  ##''
   \<and> titleOfLine ''# Intro <!-- c --> ##'' = ''Intro''
   \<and> removeComments ''<!-- c --> ##'' = removeComments '' ##''
   \<and> removeComments ''<!- c --> ##'' = CHR ''<'' # removeComments ''!- c --> ##''
   \<and> splitLines ''## Real'' = [''## Real'']
   \<and> splitLines (''```'' @ CR # ''## Real'') = ''```'' # splitLines ''## Real''"
proof -
  let ?doc = "''intro\<newline>```\<newline># Intro <!-- c --> ##\<newline>```\<newline>## Real''"
  let ?pre = "[''intro'', ''```'']"
  let ?l = "''# Intro <!-- c --> ##''"
  let ?post = "[''```'', ''## Real'']"
  let ?crlf = "''text'' @ [CR, LF] @ ''### Third'' @ [CR, LF]"
  note T = getDocumentTitle_scans_every_line [where t = "''no heading\<newline>#hash only''"
      and pre = ?pre and l = ?l and post = ?post
      and ?w1.0 = "[]" and ?h1.0 = "''#''" and ?w2.0 = "'' ''" and r = "''Intro''"
      and ?w3.0 = "''  ''" and ?h2.0 = "''##''" and ?w4.0 = "[]"
      and body = "'' c ''" and v = "'' ##''" and s = "''<!- c --> ##''"
      and u = "''## Real''"]
  note U = getDocumentTitle_scans_every_line [where t = ?crlf and pre = "[''text'', []]"
      and l = "''### Third''" and post = "[[], []]" and u = "''```''" and e = CR
      and z = "''## Real''"]
  note T2 = T [THEN conjunct2, THEN conjunct1]
  note T3 = T [THEN conjunct2, THEN conjunct2, THEN conjunct1]
  note T5 = T [THEN conjunct2, THEN conjunct2, THEN conjunct2, THEN conjunct2, THEN conjunct1]
  note T7 = T [THEN conjunct2, THEN conjunct2, THEN conjunct2, THEN conjunct2, THEN conjunct2, THEN conjunct2, THEN conjunct1]
  note T8 = T [THEN conjunct2, THEN conjunct2, THEN conjunct2, THEN conjunct2, THEN conjunct2, THEN conjunct2, THEN conjunct2, THEN conjunct1]
  note T12 = T [THEN conjunct2, THEN conjunct2, THEN conjunct2, THEN conjunct2, THEN conjunct2, THEN conjunct2, THEN conjunct2, THEN conjunct2, THEN conjunct2, THEN conjunct2, THEN conjunct2, THEN conjunct1]
  note U1 = U [THEN conjunct1]
  note U13 = U [THEN conjunct2, THEN conjunct2, THEN conjunct2, THEN conjunct2, THEN conjunct2, THEN conjunct2, THEN conjunct2, THEN conjunct2, THEN conjunct2, THEN conjunct2, THEN conjunct2, THEN conjunct2]
  have 1: "list_all (list_all (\<lambda>c. \<not> isEol c)) (?pre @ ?l # ?post)
      \<and> list_all (\<lambda>x. \<not> atxLine 1 6 x) ?pre \<and> atxLine 1 6 ?l"
    by code_simp
  have 2: "list_all (\<lambda>x. \<not> atxLine 1 6 x) (splitLines ''no heading\<newline>#hash only'')"
    by code_simp
  have 3: "splitLines ?crlf = [''text'', []] @ ''### Third'' # [[], []]
      \<and> list_all (\<lambda>x. \<not> atxLine 1 6 x) [''text'', []] \<and> atxLine 1 6 ''### Third''"
    by code_simp
  have c: "removeComments ?l = ''# Intro  ##''" by code_simp
  have 4: "removeComments ?l = [] @ ''#'' @ '' '' @ ''Intro'' @ ''  '' @ ''##'' @ []
      \<and> spaceRun [] \<and> spaceRun '' '' \<and> spaceRun ''  '' \<and> spaceRun [] \<and> hashRun ''#'' \<and> hashRun ''##''
      \<and> endsFree isSpace (''#'' @ '' '' @ ''Intro'' @ ''  '' @ ''##'')
      \<and> endsFree (\<lambda>c. c = CHR ''#'') ('' '' @ ''Intro'' @ ''  '')
      \<and> endsFree isSpace ''Intro''"
    by code_simp
  have 5: "list_all (\<lambda>c. \<not> isEol c) '' c '' \<and> \<not> sublist ''-->'' ('' c '' @ ''--'')"
    by code_simp
  have 6: "\<not> commentHere ''<!- c --> ##''" by code_simp
  have 7: "list_all (\<lambda>c. \<not> isEol c) ''## Real''" by code_simp
  have 8: "list_all (\<lambda>c. \<not> isEol c) ''```'' \<and> isEol CR" by code_simp
  have j: "joinWith [LF] (?pre @ ?l # ?post) = ?doc"
    by code_simp
  have t3: "titleOfLine ''### Third'' = ''Third''"
    by code_simp
  have b: "map blockType (markdownBlockLoop ?doc) = [plain, code]"
    by code_simp
  from T5 4 have D: "titleOfLine ?l = ''Intro''" by (rule mp)
  from T2 1
  have "getDocumentTitle (joinWith [LF] (?pre @ ?l # ?post)) = titleOfLine ?l
    \<and> hd (tocStringList (joinWith [LF] (?pre @ ?l # ?post))) = ''# '' @ titleOfLine ?l"
    by (rule mp)
  then have "getDocumentTitle ?doc = ''Intro'' \<and> hd (tocStringList ?doc) = ''# '' @ ''Intro''"
    unfolding j D .
  then have A1: "getDocumentTitle ?doc = ''Intro''" and A2: "hd (tocStringList ?doc) = ''# Intro''"
    by simp_all
  from T3 2 have B: "getDocumentTitle ''no heading\<newline>#hash only'' = ''Untitled''"
    by (rule mp)
  from U1 3 have "getDocumentTitle ?crlf = titleOfLine ''### Third''
      \<and> hd (tocStringList ?crlf) = ''# '' @ titleOfLine ''### Third''" by (rule mp)
  then have "getDocumentTitle ?crlf = titleOfLine ''### Third''" by (rule conjunct1)
  then have C: "getDocumentTitle ?crlf = ''Third''" unfolding t3 .
  from T7 5 have "removeComments (''<!--'' @ '' c '' @ ''-->'' @ '' ##'') = removeComments '' ##''"
    by (rule mp)
  then have E: "removeComments ''<!-- c --> ##'' = removeComments '' ##''" by simp
  from T8 6 have "removeComments ''<!- c --> ##''
      = (case ''<!- c --> ##'' of [] \<Rightarrow> [] | c # cs \<Rightarrow> c # removeComments cs)" by (rule mp)
  then have F: "removeComments ''<!- c --> ##'' = CHR ''<'' # removeComments ''!- c --> ##''"
    by simp
  from T12 7 have G: "splitLines ''## Real'' = [''## Real'']" by (rule mp)
  from U13 8 have H: "splitLines (''```'' @ CR # ''## Real'') = ''```'' # splitLines ''## Real''"
    by (rule mp)
  from A1 A2 b C B c D E F G H show ?thesis by (intro conjI)
qed

section \<open>Properties of the output path\<close>

lemma dot_not_word: "\<not> isWordChar CHR ''.''"
  by code_simp

lemma word_no_dot: "list_all isWordChar e \<Longrightarrow> CHR ''.'' \<notin> set e"
  using dot_not_word by (auto simp: list_all_iff)

lemma spec_trailingExtension_Some_iff:
  "spec_trailingExtension p = Some e \<longleftrightarrow>
     (\<exists>stem. p = stem @ CHR ''.'' # e) \<and> e \<noteq> [] \<and> list_all isWordChar e"
proof
  assume a: "spec_trailingExtension p = Some e"
  let ?t = "takeWhile (\<lambda>c. c \<noteq> CHR ''.'') (rev p)"
  let ?d = "dropWhile (\<lambda>c. c \<noteq> CHR ''.'') (rev p)"
  from a have e: "e = rev ?t" "CHR ''.'' \<in> set p" "e \<noteq> []" "list_all isWordChar e"
    by (auto simp: spec_trailingExtension_def Let_def split: if_splits)
  from e(2) have "?d \<noteq> []" by auto
  moreover from this have "hd ?d = CHR ''.''"
    using hd_dropWhile [of "\<lambda>c. c \<noteq> CHR ''.''" "rev p"] by simp
  ultimately obtain r where r: "?d = CHR ''.'' # r"
    by (cases ?d) simp_all
  have "p = rev (?t @ ?d)" by (simp only: takeWhile_dropWhile_id rev_rev_ident)
  then have "p = rev ?d @ rev ?t" by (simp only: rev_append)
  with r e(1) have "p = rev r @ CHR ''.'' # e" by simp
  with e show "(\<exists>stem. p = stem @ CHR ''.'' # e) \<and> e \<noteq> [] \<and> list_all isWordChar e"
    by blast
next
  assume "(\<exists>stem. p = stem @ CHR ''.'' # e) \<and> e \<noteq> [] \<and> list_all isWordChar e"
  then obtain stem where p: "p = stem @ CHR ''.'' # e" and e: "e \<noteq> []" "list_all isWordChar e"
    by blast
  from e(2) have nd: "CHR ''.'' \<notin> set e" by (rule word_no_dot)
  have "rev p = rev e @ CHR ''.'' # rev stem" by (simp add: p)
  moreover have "takeWhile (\<lambda>c. c \<noteq> CHR ''.'') (rev e @ CHR ''.'' # rev stem) = rev e"
    using nd by (auto simp: takeWhile_tail)
  ultimately have "rev (takeWhile (\<lambda>c. c \<noteq> CHR ''.'') (rev p)) = e" by simp
  with e p show "spec_trailingExtension p = Some e"
    by (simp add: spec_trailingExtension_def Let_def)
qed

lemma spec_trailingExtension_None_Cons:
  "spec_trailingExtension (c # r) = None \<Longrightarrow> spec_trailingExtension r = None"
proof (rule ccontr)
  assume n: "spec_trailingExtension (c # r) = None" and "spec_trailingExtension r \<noteq> None"
  then obtain e where "spec_trailingExtension r = Some e" by auto
  then obtain stem where "r = stem @ CHR ''.'' # e" "e \<noteq> []" "list_all isWordChar e"
    by (auto simp: spec_trailingExtension_Some_iff)
  then have "(\<exists>s. c # r = s @ CHR ''.'' # e) \<and> e \<noteq> [] \<and> list_all isWordChar e"
    by (metis append_Cons)
  then have "spec_trailingExtension (c # r) = Some e"
    by (rule iffD2 [OF spec_trailingExtension_Some_iff])
  with n show False by simp
qed

lemma extensionAt_trailing:
  "extensionAt (c # r) \<Longrightarrow> spec_trailingExtension (c # r) = Some r"
proof -
  assume "extensionAt (c # r)"
  then have "c # r = [] @ CHR ''.'' # r" "r \<noteq> []" "list_all isWordChar r"
    by (auto simp: extensionAt_def)
  then show ?thesis by (subst spec_trailingExtension_Some_iff) blast
qed

lemma replaceExtension_None:
  "spec_trailingExtension p = None \<Longrightarrow> replaceExtension p = p"
proof (induction p)
  case Nil
  then show ?case by simp
next
  case (Cons c r)
  from Cons.prems have "\<not> extensionAt (c # r)"
    using extensionAt_trailing by fastforce
  moreover from Cons.prems have "spec_trailingExtension r = None"
    by (rule spec_trailingExtension_None_Cons)
  ultimately show ?case using Cons.IH by simp
qed

lemma replaceExtension_Some:
  "e \<noteq> [] \<Longrightarrow> list_all isWordChar e \<Longrightarrow> replaceExtension (stem @ CHR ''.'' # e) = stem @ ''.html''"
proof (induction stem)
  case Nil
  then show ?case by (simp add: extensionAt_def)
next
  case (Cons c stem)
  have "\<not> list_all isWordChar (stem @ CHR ''.'' # e)"
    using dot_not_word by simp
  then have "\<not> extensionAt (c # stem @ CHR ''.'' # e)"
    by (simp add: extensionAt_def)
  with Cons show ?case by simp
qed

lemma replaceExtension_spec_stem: "replaceExtension p = (case spec_trailingExtension p of
    Some e \<Rightarrow> spec_stem p @ ''.html'' | None \<Rightarrow> p)"
proof (cases "spec_trailingExtension p")
  case None
  then show ?thesis by (simp add: replaceExtension_None)
next
  case (Some e)
  then obtain stem where p: "p = stem @ CHR ''.'' # e" and e: "e \<noteq> []" "list_all isWordChar e"
    by (auto simp: spec_trailingExtension_Some_iff)
  have "spec_stem p = stem" by (simp add: spec_stem_def Some) (simp add: p)
  with Some e p show ?thesis by (simp add: replaceExtension_Some)
qed

lemma capitalizeDrive_append_html:
  "capitalizeDrive (s @ ''.html'') = capitalizeDrive s @ ''.html''"
proof -
  have bs: "CHR ''.'' \<noteq> CHR 0x5C" "CHR ''h'' \<noteq> CHR 0x5C" "CHR ''t'' \<noteq> CHR 0x5C"
    "CHR ''.'' \<noteq> CHR '':''" "CHR ''h'' \<noteq> CHR '':''" by simp_all
  show ?thesis
  proof (cases s)
    case Nil
    then show ?thesis by (simp add: capitalizeDrive_def)
  next
    case (Cons a s1)
    show ?thesis
    proof (cases s1)
      case Nil
      with Cons show ?thesis by (simp add: capitalizeDrive_def)
    next
      case (Cons b s2)
      show ?thesis
      proof (cases s2)
        case Nil
        with \<open>s = a # s1\<close> \<open>s1 = b # s2\<close> show ?thesis by (simp add: capitalizeDrive_def)
      next
        case (Cons c s3)
        with \<open>s = a # s1\<close> \<open>s1 = b # s2\<close> show ?thesis by (auto simp: capitalizeDrive_def)
      qed
    qed
  qed
qed

lemma capitalizeDrive_length: "length (capitalizeDrive s) = length s"
  by (auto simp: capitalizeDrive_def split: list.splits)

lemma capitalizeDrive_tl: "tl (capitalizeDrive s) = tl s"
  by (auto simp: capitalizeDrive_def split: list.splits)

lemma suffix_html_trailing:
  assumes "suffix ''.html'' p"
  shows "spec_trailingExtension p = Some ''html''"
proof -
  from assms obtain stem where "p = stem @ CHR ''.'' # ''html''"
    by (auto simp: suffix_def)
  moreover have "list_all isWordChar ''html''" by code_simp
  ultimately show ?thesis by (subst spec_trailingExtension_Some_iff) blast
qed

lemma capitalizeDrive_suffix_html:
  assumes "suffix ''.html'' (capitalizeDrive p)"
  shows "suffix ''.html'' p"
proof -
  from assms obtain u where u: "capitalizeDrive p = u @ ''.html''" by (auto simp: suffix_def)
  show ?thesis
  proof (cases u)
    case Nil
    with u have "capitalizeDrive p = ''.html''" by simp
    then have "p = ''.html''"
      by (auto simp: capitalizeDrive_def split: list.splits if_splits)
    then show ?thesis by simp
  next
    case (Cons a u')
    with u have "tl (capitalizeDrive p) = u' @ ''.html''" by simp
    then have "tl p = u' @ ''.html''" by (simp add: capitalizeDrive_tl)
    moreover have "p \<noteq> []" using u Cons by (auto simp: capitalizeDrive_def)
    ultimately have "p = hd p # u' @ ''.html''" by (cases p) simp_all
    then have "p = (hd p # u') @ ''.html''" by simp
    then show ?thesis unfolding suffix_def by blast
  qed
qed

text \<open>
  Claim C8, as amended: the output path is the path without its trailing extension,
  followed by \<^verbatim>\<open>.html\<close>, so that an extension is replaced and a path without one gets
  \<^verbatim>\<open>.html\<close> appended; and the first letter of the result is put in upper case exactly when
  it is one of the letters \<^verbatim>\<open>c\<close> to \<^verbatim>\<open>j\<close>, followed by a colon and a backslash. Every
  other first letter stays as it is.
\<close>

theorem deriveOutPath_spec:
  "deriveOutPath p = capitalizeDrive (spec_stem p) @ ''.html''
   \<and> capitalizeDrive (d # c2 # c3 # r) =
       (if d \<in> set ''cdefghij'' \<and> c2 = CHR '':'' \<and> c3 = CHR 0x5C then toUpperChar d else d) # c2 # c3 # r
   \<and> map toUpperChar ''cdefghij'' = ''CDEFGHIJ''"
proof (intro conjI)
  show "deriveOutPath p = capitalizeDrive (spec_stem p) @ ''.html''"
  proof (cases "spec_trailingExtension p")
    case None
    then have "replaceExtension p = p" "spec_stem p = p"
      by (simp_all add: replaceExtension_None spec_stem_def)
    moreover have "\<not> suffix ''.html'' (capitalizeDrive p)"
      using None capitalizeDrive_suffix_html suffix_html_trailing by fastforce
    ultimately show ?thesis by (simp add: deriveOutPath_def)
  next
    case (Some e)
    then have "replaceExtension p = spec_stem p @ ''.html''"
      by (simp add: replaceExtension_spec_stem)
    then show ?thesis
      by (simp add: deriveOutPath_def capitalizeDrive_append_html suffix_def)
  qed
  show "capitalizeDrive (d # c2 # c3 # r) =
       (if d \<in> set ''cdefghij'' \<and> c2 = CHR '':'' \<and> c3 = CHR 0x5C then toUpperChar d else d) # c2 # c3 # r"
    by (auto simp: capitalizeDrive_def)
  show "map toUpperChar ''cdefghij'' = ''CDEFGHIJ''"
    by code_simp
qed

text \<open>Claim C8 as stated fails for the drive letter \<^verbatim>\<open>k\<close>: the path
  \<^verbatim>\<open>k:\notes.md\<close> keeps its lower-case drive letter.\<close>

theorem deriveOutPath_drive_k_counterexample:
  "deriveOutPath (CHR ''k'' # CHR '':'' # CHR 0x5C # ''notes.md'')
     = CHR ''k'' # CHR '':'' # CHR 0x5C # ''notes.html''"
  by code_simp

section \<open>Properties of the formatting step\<close>















section \<open>Properties of the navigation\<close>

lemma splitOn_nonempty: "splitOn c s \<noteq> []"
  by (induction s) (auto split: list.splits)

lemma splitOn_append:
  "splitOn c (u @ c # v) = splitOn c u @ splitOn c v"
proof (induction u)
  case Nil
  then show ?case by simp
next
  case (Cons x u)
  obtain l ls where l: "splitOn c u = l # ls"
    using splitOn_nonempty [of c u] by (cases "splitOn c u") auto
  with Cons show ?case by simp
qed

lemma normalizeSegments_append:
  "normalizeSegments a res (xs @ ys) = normalizeSegments a (normalizeSegments a res xs) ys"
  by (induction xs arbitrary: res) simp_all

lemma normalizeSegments_plain:
  "list_all plainSegment segs \<Longrightarrow> normalizeSegments a res segs = res @ segs"
  by (induction segs arbitrary: res) (simp_all add: plainSegment_def)

lemma stripCommon_append: "stripCommon (b @ xs) (b @ ys) = stripCommon xs ys"
  by (induction b) simp_all

lemma resolveSegments_plain:
  assumes "\<not> prefix ''/'' p" "list_all plainSegment (splitOn CHR ''/'' p)"
  shows "resolveSegments cwd p
    = normalizeSegments False [] (splitOn CHR ''/'' cwd) @ splitOn CHR ''/'' p"
proof -
  have "cwd @ ''/'' @ p = cwd @ CHR ''/'' # p" by simp
  then have "splitOn CHR ''/'' (cwd @ ''/'' @ p) = splitOn CHR ''/'' cwd @ splitOn CHR ''/'' p"
    by (simp only: splitOn_append)
  with assms show ?thesis
    by (simp add: resolveSegments_def normalizeSegments_append normalizeSegments_plain)
qed

text \<open>Two relative paths without empty segments, \<^verbatim>\<open>.\<close> and \<^verbatim>\<open>..\<close>: the working
  directory plays no part.\<close>

lemma path_relative_plain:
  assumes "\<not> prefix ''/'' from" "list_all plainSegment (splitOn CHR ''/'' from)"
    and "\<not> prefix ''/'' to" "list_all plainSegment (splitOn CHR ''/'' to)"
  shows "path_relative cwd from to =
     (if from = to \<or> splitOn CHR ''/'' from = splitOn CHR ''/'' to then []
      else (case stripCommon (splitOn CHR ''/'' from) (splitOn CHR ''/'' to) of
              (f', t') \<Rightarrow> joinWith ''/'' (replicate (length f') ''..'' @ t')))"
  by (simp add: path_relative_def Let_def resolveSegments_plain [OF assms(1,2)]
      resolveSegments_plain [OF assms(3,4)] stripCommon_append)

lemma rel_z: "path_relative cwd ''a/b'' ''z.md'' = ''../../z.md''"
proof -
  have "\<not> prefix ''/'' ''a/b''" "list_all plainSegment (splitOn CHR ''/'' ''a/b'')"
    "\<not> prefix ''/'' ''z.md''" "list_all plainSegment (splitOn CHR ''/'' ''z.md'')"
    by code_simp+
  from path_relative_plain [OF this] show ?thesis by simp
qed

lemma rel_a: "path_relative cwd ''a/b'' ''a'' = ''..''"
proof -
  have "\<not> prefix ''/'' ''a/b''" "list_all plainSegment (splitOn CHR ''/'' ''a/b'')"
    "\<not> prefix ''/'' ''a''" "list_all plainSegment (splitOn CHR ''/'' ''a'')"
    by code_simp+
  from path_relative_plain [OF this] show ?thesis by simp
qed

lemma rel_x: "path_relative cwd ''a/b'' ''a/x.md'' = ''../x.md''"
proof -
  have "\<not> prefix ''/'' ''a/b''" "list_all plainSegment (splitOn CHR ''/'' ''a/b'')"
    "\<not> prefix ''/'' ''a/x.md''" "list_all plainSegment (splitOn CHR ''/'' ''a/x.md'')"
    by code_simp+
  from path_relative_plain [OF this] show ?thesis by simp
qed

lemma rel_y: "path_relative cwd ''a/b'' ''a/b/y.md'' = ''y.md''"
proof -
  have "\<not> prefix ''/'' ''a/b''" "list_all plainSegment (splitOn CHR ''/'' ''a/b'')"
    "\<not> prefix ''/'' ''a/b/y.md''" "list_all plainSegment (splitOn CHR ''/'' ''a/b/y.md'')"
    by code_simp+
  from path_relative_plain [OF this] show ?thesis by simp
qed

lemma rel_b: "path_relative cwd ''a/b'' ''a/b'' = []"
  by (simp add: path_relative_def)

lemma example_tree:
  "buildFolderObject rootName docText [''a/b/y.md'', ''a/x.md'', ''z.md''] =
     FolderObject [] rootName ''root''
       [FolderObject ''a'' ''a'' ''a''
          [FolderObject ''a/b'' ''b'' ''b'' [] [makeFileObject docText ''a/b/y.md'']]
          [makeFileObject docText ''a/x.md'']]
       [makeFileObject docText ''z.md'']"
proof -
  have j: "path_join [] ''a'' = ''a''" "path_join ''a'' ''b'' = ''a/b''" by code_simp+
  have s: "splitOn CHR ''/'' ''a/b/y.md'' = [''a'', ''b'', ''y.md'']"
    "splitOn CHR ''/'' ''a/x.md'' = [''a'', ''x.md'']"
    "splitOn CHR ''/'' ''z.md'' = [''z.md'']" by code_simp+
  show ?thesis by (simp add: buildFolderObject_def s j)
qed


text \<open>
  Claim C5, as amended: for the tree of the paths \<^verbatim>\<open>a/b/y.md\<close>, \<^verbatim>\<open>a/x.md\<close>, \<^verbatim>\<open>z.md\<close> and
  the target \<^verbatim>\<open>a/b/y.md\<close>, whatever the working directory, the name of the root and the
  documents are, the navigation marks the folder \<^verbatim>\<open>a/b\<close> active and the folder \<^verbatim>\<open>a\<close>
  not, marks the file \<^verbatim>\<open>y.md\<close> active and the files \<^verbatim>\<open>x.md\<close> and \<^verbatim>\<open>z.md\<close> not, and the
  link of \<^verbatim>\<open>z.md\<close> is \<^verbatim>\<open>../../z.html\<close>. In general a folder is marked active exactly when
  its path is the directory of the target, and a file exactly when its path is the
  target.
\<close>

theorem navigation_active_marking:
  \<open>recursiveFileNavigationHtmlFactory cwd
       (buildFolderObject rootName docText [''a/b/y.md'', ''a/x.md'', ''z.md'']) ''a/b/y.md'' []
     = ''<li class="file"><a href="../../z.html">'' @ title (makeFileObject docText ''z.md'')
         @ ''</a></li>''
       @ ''<li class="folder"><a href="..">a</a><ul>''
       @ ''<li class="file"><a href="../x.html">'' @ title (makeFileObject docText ''a/x.md'')
         @ ''</a></li>''
       @ ''<li class="folder active"><a href="">b</a><ul>''
       @ ''<li class="file active"><a href="y.html">''
         @ title (makeFileObject docText ''a/b/y.md'') @ ''</a></li>''
       @ ''</ul></li></ul></li>''
   \<and> prefix ''<li class="folder active">'' (folderItem cwd target folderObjectNext)
       = (folderPath folderObjectNext = path_dirname target)
   \<and> prefix ''<li class="file active">'' (fileItem cwd target fileObject)
       = (target = filePath fileObject)\<close>
proof (intro conjI)
  have d: "path_dirname ''a/b/y.md'' = ''a/b''" by code_simp
  have h: "toHtmlHref ''../../z.md'' = ''../../z.html''" "toHtmlHref ''../x.md'' = ''../x.html''"
    "toHtmlHref ''y.md'' = ''y.html''" by code_simp+
  have f: "filePath (makeFileObject docText q) = q" for q
    by (simp add: makeFileObject_def Let_def)
  show \<open>recursiveFileNavigationHtmlFactory cwd
       (buildFolderObject rootName docText [''a/b/y.md'', ''a/x.md'', ''z.md'']) ''a/b/y.md'' []
     = ''<li class="file"><a href="../../z.html">'' @ title (makeFileObject docText ''z.md'')
         @ ''</a></li>''
       @ ''<li class="folder"><a href="..">a</a><ul>''
       @ ''<li class="file"><a href="../x.html">'' @ title (makeFileObject docText ''a/x.md'')
         @ ''</a></li>''
       @ ''<li class="folder active"><a href="">b</a><ul>''
       @ ''<li class="file active"><a href="y.html">''
         @ title (makeFileObject docText ''a/b/y.md'') @ ''</a></li>''
       @ ''</ul></li></ul></li>''\<close>
    by (simp add: example_tree fileItem_def folderItem_def Let_def d f h
        rel_z rel_a rel_x rel_y rel_b)
  show \<open>prefix ''<li class="folder active">'' (folderItem cwd target folderObjectNext)
       = (folderPath folderObjectNext = path_dirname target)\<close>
    by (simp add: folderItem_def Let_def)
  show \<open>prefix ''<li class="file active">'' (fileItem cwd target fileObject)
       = (target = filePath fileObject)\<close>
    by (simp add: fileItem_def Let_def)
qed

text \<open>Claim C5 as stated fails at the folder \<^verbatim>\<open>a\<close>, the first folder of the root: it is
  an ancestor of the target \<^verbatim>\<open>a/b/y.md\<close>, and its item has the class \<^verbatim>\<open>folder\<close> without
  \<^verbatim>\<open>active\<close>.\<close>

theorem navigation_ancestor_counterexample:
  \<open>folderPath (hd (folderObjectList
       (buildFolderObject ''ws'' (\<lambda>p. []) [''a/b/y.md'', ''a/x.md'', ''z.md'']))) = ''a''
   \<and> folderItem ''/home/u/ws'' ''a/b/y.md''
       (hd (folderObjectList
         (buildFolderObject ''ws'' (\<lambda>p. []) [''a/b/y.md'', ''a/x.md'', ''z.md''])))
     = ''<li class="folder"><a href="..">a</a>''\<close>
  by code_simp

section \<open>Properties of the image reference rewriter\<close>

text \<open>
  Claim C7 as stated (the rewrite is idempotent on every block text) fails for a
  reference whose source runs over a line break. In the first pass the whole text is one
  match: its source is everything up to the first closing parenthesis, the second line
  included. After the splice the search goes on at the old end of the match, which lies
  behind the start of the second line, so that line is not tried. In a second pass the
  first line is refused as a placeholder, the second line is tried, matches with the
  placeholder suffix as the end of its source, and is replaced and recorded.
\<close>

theorem imgLoop_second_pass_counterexample:
  "imgLoop ''![a](x\<newline>![b](yyyyyyyyyyyyyyyyy.png)'' 0 []
     = (''![a](./TOBE_BASE64_IMGPATH_x\<newline>![b](yyyyyyyyyyyyyyyyy.png_TO_BE_BASE64_IMGPATH)'',
        [''x\<newline>![b](yyyyyyyyyyyyyyyyy.png''])
   \<and> imgLoop ''![a](./TOBE_BASE64_IMGPATH_x\<newline>![b](yyyyyyyyyyyyyyyyy.png_TO_BE_BASE64_IMGPATH)'' 0 []
     = (''![a](./TOBE_BASE64_IMGPATH_x\<newline>![b](./TOBE_BASE64_IMGPATH_yyyyyyyyyyyyyyyyy.png_TO_BE_BASE64_IMGPATH_TO_BE_BASE64_IMGPATH)'',
        [''yyyyyyyyyyyyyyyyy.png_TO_BE_BASE64_IMGPATH''])"
  by code_simp

lemma mapLinesAcc_line:
  "list_all (\<lambda>c. \<not> isEol c) l \<Longrightarrow> mapLinesAcc f acc (l @ r) = mapLinesAcc f (rev l @ acc) r"
  by (induction l arbitrary: acc) simp_all

lemma mapLines_line: "list_all (\<lambda>c. \<not> isEol c) l \<Longrightarrow> mapLines f l = f l"
  using mapLinesAcc_line [of l f "[]" "[]"] by (simp add: mapLines_def)

lemma mapLines_append_eol:
  "list_all (\<lambda>c. \<not> isEol c) l \<Longrightarrow> isEol e \<Longrightarrow> mapLines f (l @ e # r) = f l @ e # mapLines f r"
  using mapLinesAcc_line [of l f "[]" "e # r"] by (simp add: mapLines_def)

lemma lines_induct [case_names line eol]:
  assumes "\<And>l. list_all (\<lambda>c. \<not> isEol c) l \<Longrightarrow> P l"
    and "\<And>l e r. list_all (\<lambda>c. \<not> isEol c) l \<Longrightarrow> isEol e \<Longrightarrow> P r \<Longrightarrow> P (l @ e # r)"
  shows "P s"
proof (induction s rule: length_induct)
  case (1 s)
  let ?l = "takeWhile (\<lambda>c. \<not> isEol c) s"
  let ?d = "dropWhile (\<lambda>c. \<not> isEol c) s"
  have l: "list_all (\<lambda>c. \<not> isEol c) ?l"
    by (auto simp: list_all_iff dest: set_takeWhileD)
  show ?case
  proof (cases ?d)
    case Nil
    then have "s = ?l" by (metis append_Nil2 takeWhile_dropWhile_id)
    with assms(1) [OF l] show ?thesis by simp
  next
    case (Cons e r)
    then have e: "isEol e" using hd_dropWhile [of "\<lambda>c. \<not> isEol c" s] by auto
    have s: "s = ?l @ e # r" using Cons by (metis takeWhile_dropWhile_id)
    then have "length r < length s" by (metis length_append length_Cons less_add_Suc2 add_Suc_right)
    with 1 have "P r" by blast
    from assms(2) [OF l e this] s show ?thesis by simp
  qed
qed


declare imgScan.simps [simp del]

lemma imgMatchHere_Nil: "imgMatchHere [] = None"
  by (simp add: imgMatchHere_def)

lemma imgScan_Nil: "imgScan b k [] = None"
  by (simp add: imgScan.simps imgMatchHere_Nil)

lemma imgScan_False_Cons: "imgScan False k (c # r) = imgScan (isEol c) (Suc k) r"
  by (simp add: imgScan.simps)

lemma imgScan_True_Some:
  "imgMatchHere s = Some (alt, src) \<Longrightarrow> imgScan True k s = Some (k, alt, src)"
  by (simp add: imgScan.simps)

lemma imgScan_True_None_Cons:
  "imgMatchHere (c # r) = None \<Longrightarrow> imgScan True k (c # r) = imgScan (isEol c) (Suc k) r"
  by (simp add: imgScan.simps)

lemma imgScan_skip:
  "list_all (\<lambda>c. \<not> isEol c) u \<Longrightarrow> imgScan False k (u @ v) = imgScan False (k + length u) v"
  by (induction u arbitrary: k) (simp_all add: imgScan_False_Cons)

lemma imgScan_skip_line:
  assumes "list_all (\<lambda>c. \<not> isEol c) u" "isEol e"
  shows "imgScan False k (u @ e # v) = imgScan True (Suc (k + length u)) v"
  using assms by (simp add: imgScan_skip imgScan_False_Cons)

lemma imgScan_skip_end:
  assumes "list_all (\<lambda>c. \<not> isEol c) u"
  shows "imgScan False k u = None"
  using imgScan_skip [OF assms, of k "[]"] by (simp add: imgScan_Nil)

lemma imgScan_nomatch_line:
  assumes "list_all (\<lambda>c. \<not> isEol c) l" "isEol e" "imgMatchHere (l @ e # v) = None"
  shows "imgScan True k (l @ e # v) = imgScan True (Suc (k + length l)) v"
proof (cases l)
  case Nil
  with assms show ?thesis by (simp add: imgScan_True_None_Cons)
next
  case (Cons c l')
  with assms have "imgScan True k (l @ e # v) = imgScan False (Suc k) (l' @ e # v)"
    by (simp add: imgScan_True_None_Cons)
  also have "\<dots> = imgScan True (Suc (Suc k + length l')) v"
    using assms Cons by (intro imgScan_skip_line) simp_all
  finally show ?thesis using Cons by simp
qed

lemma imgScan_nomatch_end:
  assumes "list_all (\<lambda>c. \<not> isEol c) l" "imgMatchHere l = None"
  shows "imgScan True k l = None"
proof (cases l)
  case Nil
  then show ?thesis by (simp add: imgScan_Nil)
next
  case (Cons c l')
  with assms show ?thesis by (simp add: imgScan_True_None_Cons imgScan_skip_end)
qed

lemma imgExec_split:
  "imgExec (p @ s) (length p) = imgScan (p = [] \<or> isEol (last p)) (length p) s"
proof (cases "p = []")
  case True
  then show ?thesis by (simp add: imgExec_def)
next
  case False
  then have "(p @ s) ! (length p - 1) = last p"
    by (simp add: nth_append last_conv_nth)
  with False show ?thesis by (simp add: imgExec_def)
qed

lemma imgExec_split_False:
  "p \<noteq> [] \<Longrightarrow> \<not> isEol (last p) \<Longrightarrow> imgExec (p @ s) (length p) = imgScan False (length p) s"
  by (simp add: imgExec_split)

lemma imgExec_split_True:
  "p = [] \<or> isEol (last p) \<Longrightarrow> imgExec (p @ s) (length p) = imgScan True (length p) s"
  by (simp add: imgExec_split)

lemma imgLoop_same_exec:
  "imgExec t a = imgExec t b \<Longrightarrow> imgLoop t a srcs = imgLoop t b srcs"
  by (subst imgLoop.simps, subst (2) imgLoop.simps) simp

lemma imgLoop_None: "imgExec t a = None \<Longrightarrow> imgLoop t a srcs = (t, srcs)"
  by (subst imgLoop.simps) simp


lemma eol_chars:
  "isEol c \<Longrightarrow> c \<noteq> CHR ''!'' \<and> c \<noteq> CHR ''['' \<and> c \<noteq> CHR '']'' \<and> c \<noteq> CHR ''('' \<and> c \<noteq> CHR '')''"
  by (auto simp: isEol_def LF_def CR_def)

lemma placeholderPrefix_no_paren: "CHR '')'' \<notin> set placeholderPrefix"
  by (simp add: placeholderPrefix_def)

lemma atLineEnd_eolfree:
  "list_all (\<lambda>c. \<not> isEol c) s \<Longrightarrow> atLineEnd s \<Longrightarrow> s = []"
  by (cases s) (simp_all add: atLineEnd_def)

lemma imgMatchHere_intro:
  assumes "CHR '']'' \<notin> set alt" "CHR '')'' \<notin> set src" "src \<noteq> []"
    and "\<not> prefix placeholderPrefix (src @ '')'' @ rest)" "atLineEnd rest"
  shows "imgMatchHere (imgMatched alt src @ rest) = Some (alt, src)"
proof -
  have a: "takeWhile (\<lambda>c. c \<noteq> CHR '']'') (alt @ CHR '']'' # x) = alt" for x
    using assms(1) by (auto simp: takeWhile_tail)
  have b: "takeWhile (\<lambda>c. c \<noteq> CHR '')'') (src @ CHR '')'' # x) = src" for x
    using assms(2) by (auto simp: takeWhile_tail)
  show ?thesis
    using assms(3,4,5) by (simp add: imgMatchHere_def imgMatched_def a b)
qed

lemma imgMatchHere_replaced:
  assumes "CHR '']'' \<notin> set alt"
  shows "imgMatchHere (imgReplaced alt src @ rest) = None"
proof -
  have a: "takeWhile (\<lambda>c. c \<noteq> CHR '']'') (alt @ CHR '']'' # x) = alt" for x
    using assms(1) by (auto simp: takeWhile_tail)
  show ?thesis
    by (simp add: imgMatchHere_def imgReplaced_def a)
qed

lemma imgMatchHere_whole_line:
  assumes "list_all (\<lambda>c. \<not> isEol c) l" "imgMatchHere l = Some (alt, src)"
  shows "l = imgMatched alt src"
proof -
  from imgMatchHere_shape [OF assms(2)] obtain rest where
    r: "l = imgMatched alt src @ rest" "atLineEnd rest" by blast
  from assms(1) r(1) have "list_all (\<lambda>c. \<not> isEol c) rest"
    by (metis list_all_append)
  with r(2) have "rest = []" using atLineEnd_eolfree by blast
  with r(1) show ?thesis by simp
qed


lemma prefix_placeholder_paren:
  assumes "CHR '')'' \<notin> set u" "prefix placeholderPrefix (u @ CHR '')'' # w)"
  shows "prefix placeholderPrefix u"
proof -
  from assms(2) have "prefix placeholderPrefix u
      \<or> (\<exists>us. placeholderPrefix = u @ us \<and> prefix us (CHR '')'' # w))"
    by (simp add: prefix_append)
  then show ?thesis
  proof
    assume "prefix placeholderPrefix u"
    then show ?thesis .
  next
    assume "\<exists>us. placeholderPrefix = u @ us \<and> prefix us (CHR '')'' # w)"
    then obtain us where us: "placeholderPrefix = u @ us" "prefix us (CHR '')'' # w)" by blast
    show ?thesis
    proof (cases us)
      case Nil
      with us show ?thesis by simp
    next
      case (Cons c us')
      with us(2) have "c = CHR '')''" by simp
      with Cons have "CHR '')'' \<in> set (u @ us)" by simp
      then have "CHR '')'' \<in> set placeholderPrefix" by (simp only: us(1))
      with placeholderPrefix_no_paren show ?thesis by simp
    qed
  qed
qed

text \<open>A line where the expression is decided within the line: when it starts with
  \<^verbatim>\<open>![\<close>, it has a \<^verbatim>\<open>]\<close> behind, and when \<^verbatim>\<open>(\<close> follows that, a \<^verbatim>\<open>)\<close> too.\<close>

lemma imgMatchHere_line_Some:
  assumes l: "list_all (\<lambda>c. \<not> isEol c) l" and loc: "lineLocal l" and rest: "atLineEnd rest"
    and m: "imgMatchHere (l @ rest) = Some (alt, src)"
  shows "l = imgMatched alt src"
proof -
  from imgMatchHere_shape [OF m] obtain rest' where
    sh: "l @ rest = imgMatched alt src @ rest'" "atLineEnd rest'" "CHR '']'' \<notin> set alt"
      "CHR '')'' \<notin> set src" by blast
  have hd_rest: "rest = [] \<or> isEol (hd rest)"
    using rest by (cases rest) (simp_all add: atLineEnd_def)
  \<comment> \<open>the line holds the two opening characters\<close>
  have "prefix ''!['' l"
  proof (cases l)
    case Nil
    with sh(1) hd_rest show ?thesis
      using eol_chars [of "hd rest"] by (cases rest) (auto simp: imgMatched_def)
  next
    case (Cons c l')
    show ?thesis
    proof (cases l')
      case Nil
      with Cons sh(1) hd_rest show ?thesis
        using eol_chars [of "hd rest"] by (cases rest) (auto simp: imgMatched_def)
    next
      case (Cons d l'')
      with \<open>l = c # l'\<close> sh(1) show ?thesis by (simp add: imgMatched_def)
    qed
  qed
  then obtain l1 where l1: "l = ''!['' @ l1" by (auto simp: prefix_def)
  with sh(1) have e1: "l1 @ rest = alt @ '']('' @ src @ '')'' @ rest'"
    by (simp add: imgMatched_def)
  define r where "r = dropWhile (\<lambda>c. c \<noteq> CHR '']'') l1"
  from loc l1 have r: "r \<noteq> []" and r2: "prefix '']('' r \<Longrightarrow> CHR '')'' \<in> set (drop 2 r)"
    by (simp_all add: lineLocal_def Let_def r_def)
  from r have in1: "\<exists>x \<in> set l1. \<not> x \<noteq> CHR '']''" by (auto simp: r_def)
  have "takeWhile (\<lambda>c. c \<noteq> CHR '']'') (l1 @ rest) = takeWhile (\<lambda>c. c \<noteq> CHR '']'') l1"
    using in1 by auto
  moreover have "takeWhile (\<lambda>c. c \<noteq> CHR '']'') (alt @ '']('' @ src @ '')'' @ rest') = alt"
    using sh(3) by (auto simp: takeWhile_tail)
  ultimately have alt: "takeWhile (\<lambda>c. c \<noteq> CHR '']'') l1 = alt" using e1 by simp
  then have l1r: "l1 = alt @ r"
    by (metis r_def takeWhile_dropWhile_id)
  with e1 have e2: "r @ rest = '']('' @ src @ '')'' @ rest'" by simp
  \<comment> \<open>the line holds the opening parenthesis\<close>
  have "prefix '']('' r"
  proof (cases r)
    case Nil
    with r show ?thesis by simp
  next
    case (Cons c r')
    show ?thesis
    proof (cases r')
      case Nil
      with Cons e2 hd_rest show ?thesis
        using eol_chars [of "hd rest"] by (cases rest) auto
    next
      case (Cons d r'')
      with \<open>r = c # r'\<close> e2 show ?thesis by simp
    qed
  qed
  then obtain s3 where s3: "r = '']('' @ s3" by (auto simp: prefix_def)
  with r2 \<open>prefix '']('' r\<close> have in3: "CHR '')'' \<in> set s3" by simp
  from s3 e2 have e3: "s3 @ rest = src @ '')'' @ rest'" by simp
  have "takeWhile (\<lambda>c. c \<noteq> CHR '')'') (s3 @ rest) = takeWhile (\<lambda>c. c \<noteq> CHR '')'') s3"
    using in3 by auto
  moreover have "takeWhile (\<lambda>c. c \<noteq> CHR '')'') (src @ '')'' @ rest') = src"
    using sh(4) by (auto simp: takeWhile_tail)
  ultimately have src: "takeWhile (\<lambda>c. c \<noteq> CHR '')'') s3 = src" using e3 by simp
  define s4 where "s4 = dropWhile (\<lambda>c. c \<noteq> CHR '')'') s3"
  have s3s: "s3 = src @ s4" by (metis s4_def src takeWhile_dropWhile_id)
  from in3 have "s4 \<noteq> []" by (auto simp: s4_def)
  moreover from this have "hd s4 = CHR '')''"
    using hd_dropWhile [of "\<lambda>c. c \<noteq> CHR '')''" s3] by (simp add: s4_def)
  ultimately obtain s5 where s5: "s4 = CHR '')'' # s5" by (cases s4) simp_all
  from e3 s3s s5 have e5: "rest' = s5 @ rest" by simp
  have "list_all (\<lambda>c. \<not> isEol c) s5"
    using l l1 l1r s3 s3s s5 by simp
  moreover have "atLineEnd s5"
  proof (cases s5)
    case Nil
    then show ?thesis by (simp add: atLineEnd_def)
  next
    case (Cons c s5')
    with sh(2) e5 show ?thesis by (simp add: atLineEnd_def)
  qed
  ultimately have "s5 = []" by (rule atLineEnd_eolfree)
  with l1 l1r s3 s3s s5 show ?thesis by (simp add: imgMatched_def)
qed

lemma imgMatchHere_line:
  assumes l: "list_all (\<lambda>c. \<not> isEol c) l" and loc: "lineLocal l" and rest: "atLineEnd rest"
  shows "imgMatchHere (l @ rest) = imgMatchHere l"
proof (cases "imgMatchHere (l @ rest)")
  case (Some p)
  obtain alt src where p: "p = (alt, src)" by (cases p)
  with Some have m: "imgMatchHere (l @ rest) = Some (alt, src)" by simp
  from imgMatchHere_line_Some [OF l loc rest m] have lm: "l = imgMatched alt src" .
  from imgMatchHere_shape [OF m] obtain rest' where
    sh: "l @ rest = imgMatched alt src @ rest'" "CHR '']'' \<notin> set alt"
      "CHR '')'' \<notin> set src" "src \<noteq> []"
      "\<not> prefix placeholderPrefix (src @ '')'' @ rest')" by blast
  from sh(1) lm have "rest' = rest" by simp
  with sh(5) have "\<not> prefix placeholderPrefix (src @ '')'' @ [])"
    by (metis append_Nil2 append_assoc prefix_prefix)
  with sh have "imgMatchHere (imgMatched alt src @ []) = Some (alt, src)"
    by (intro imgMatchHere_intro) (simp_all add: atLineEnd_def)
  with lm m show ?thesis by simp
next
  case None
  show ?thesis
  proof (cases "imgMatchHere l")
    case None
    with \<open>imgMatchHere (l @ rest) = None\<close> show ?thesis by simp
  next
    case (Some p)
    obtain alt src where p: "p = (alt, src)" by (cases p)
    with Some have m: "imgMatchHere l = Some (alt, src)" by simp
    from imgMatchHere_whole_line [OF l m] have lm: "l = imgMatched alt src" .
    from imgMatchHere_shape [OF m] obtain rest' where
      sh: "l = imgMatched alt src @ rest'" "CHR '']'' \<notin> set alt"
        "CHR '')'' \<notin> set src" "src \<noteq> []"
        "\<not> prefix placeholderPrefix (src @ '')'' @ rest')" by blast
    from sh(1) lm have r': "rest' = []" by simp
    have "\<not> prefix placeholderPrefix (src @ '')'' @ rest)"
    proof
      assume "prefix placeholderPrefix (src @ '')'' @ rest)"
      then have "prefix placeholderPrefix (src @ CHR '')'' # rest)" by simp
      with sh(3) have "prefix placeholderPrefix src" by (rule prefix_placeholder_paren)
      then have "prefix placeholderPrefix (src @ '')'' @ rest')" by simp
      with sh(5) show False by simp
    qed
    with sh rest have "imgMatchHere (imgMatched alt src @ rest) = Some (alt, src)"
      by (intro imgMatchHere_intro)
    with lm None show ?thesis by simp
  qed
qed


lemma eolfree_parts:
  assumes "list_all (\<lambda>c. \<not> isEol c) (imgMatched alt src)"
  shows "list_all (\<lambda>c. \<not> isEol c) (imgReplaced alt src)"
  using assms
  by (simp add: imgMatched_def imgReplaced_def placeholderPrefix_def placeholderSuffix_def
      isEol_def LF_def CR_def)

lemma length_imgReplaced:
  "length (imgReplaced alt src) = length (imgMatched alt src) + 43"
  by (simp add: imgMatched_def imgReplaced_def placeholderPrefix_def placeholderSuffix_def)

lemma imgMatched_nonempty: "imgMatched alt src \<noteq> []"
  by (simp add: imgMatched_def)

lemma last_imgMatched: "last (imgMatched alt src) = CHR '')''"
  by (simp add: imgMatched_def)

lemma imgLoop_match:
  assumes flag: "pre = [] \<or> isEol (last pre)"
    and m: "imgMatchHere (imgMatched alt src @ rest) = Some (alt, src)"
  shows "imgLoop (pre @ imgMatched alt src @ rest) (length pre) srcs =
     (if eligible src then
        imgLoop (pre @ imgReplaced alt src @ rest) (length pre + length (imgMatched alt src))
          (srcs @ [src])
      else imgLoop (pre @ imgMatched alt src @ rest) (length pre + length (imgMatched alt src)) srcs)"
proof -
  have "imgExec (pre @ imgMatched alt src @ rest) (length pre) = Some (length pre, alt, src)"
    using imgExec_split [of pre "imgMatched alt src @ rest"] flag m
    by (simp add: imgScan_True_Some)
  then show ?thesis
    by (subst imgLoop.simps) (simp add: Let_def)
qed

lemma imgExec_after_replaced:
  assumes "list_all (\<lambda>c. \<not> isEol c) (imgMatched alt src)"
  shows "imgExec (pre @ imgReplaced alt src @ rest) (length pre + length (imgMatched alt src))
    = imgScan False (length pre + length (imgMatched alt src))
        (drop (length (imgMatched alt src)) (imgReplaced alt src) @ rest)"
proof -
  let ?m = "length (imgMatched alt src)"
  let ?R = "imgReplaced alt src"
  let ?p = "pre @ take ?m ?R"
  have R: "list_all (\<lambda>c. \<not> isEol c) ?R" using assms by (rule eolfree_parts)
  have le: "?m \<le> length ?R" by (simp add: length_imgReplaced)
  have "length (take ?m ?R) = ?m" using le by simp
  moreover have "0 < ?m" using imgMatched_nonempty [of alt src] by simp
  ultimately have ne: "take ?m ?R \<noteq> []" by (metis length_greater_0_conv)
  then have "last ?p \<in> set (take ?m ?R)" by simp
  then have "last ?p \<in> set ?R" by (rule in_set_takeD)
  with R have 1: "\<not> isEol (last ?p)" by (simp add: list_all_iff)
  have 2: "?p \<noteq> []" using ne by simp
  have 3: "?p @ (drop ?m ?R @ rest) = pre @ ?R @ rest" by simp
  have 4: "length ?p = length pre + ?m" using le by simp
  from imgExec_split_False [OF 2 1, of "drop ?m ?R @ rest"] show ?thesis
    by (simp only: 3 4)
qed

lemma imgExec_after_skipped:
  "imgExec (pre @ imgMatched alt src @ rest) (length pre + length (imgMatched alt src))
    = imgScan False (length pre + length (imgMatched alt src)) rest"
proof -
  let ?p = "pre @ imgMatched alt src"
  have "last ?p = CHR '')''" using imgMatched_nonempty by (simp add: last_imgMatched)
  then have 1: "\<not> isEol (last ?p)" using eol_chars by metis
  have 2: "?p \<noteq> []" using imgMatched_nonempty by simp
  have 3: "?p @ rest = pre @ imgMatched alt src @ rest" by simp
  have 4: "length ?p = length pre + length (imgMatched alt src)" by simp
  from imgExec_split_False [OF 2 1, of rest] show ?thesis
    by (simp only: 3 4)
qed

lemma imgExec_line_start:
  "isEol e \<Longrightarrow> imgExec ((pre @ [e]) @ r) (length (pre @ [e])) = imgScan True (Suc (length pre)) r"
  using imgExec_split [of "pre @ [e]" r] by simp


lemma imgLoop_advance:
  assumes "imgExec (p @ e # r) k = imgScan True (Suc (length p)) r" "isEol e"
  shows "imgLoop (p @ e # r) k srcs = imgLoop ((p @ [e]) @ r) (length (p @ [e])) srcs"
proof -
  have t: "(p @ [e]) @ r = p @ e # r" by simp
  have "imgExec (p @ e # r) (length (p @ [e])) = imgScan True (Suc (length p)) r"
    using imgExec_line_start [OF assms(2), of p r] by (simp only: t)
  with assms(1) have "imgExec (p @ e # r) k = imgExec (p @ e # r) (length (p @ [e]))" by simp
  then have "imgLoop (p @ e # r) k srcs = imgLoop (p @ e # r) (length (p @ [e])) srcs"
    by (rule imgLoop_same_exec)
  then show ?thesis by (simp only: t)
qed

lemma rwLine_None: "imgMatchHere l = None \<Longrightarrow> rwLine l = l \<and> srcLine l = []"
  by (simp add: rwLine_def srcLine_def)

lemma rwLine_Some:
  "imgMatchHere l = Some (alt, src) \<Longrightarrow>
   rwLine l = (if eligible src then imgReplaced alt src else l)
   \<and> srcLine l = (if eligible src then [src] else [])"
  by (simp add: rwLine_def srcLine_def)

lemma imgLoop_lines:
  assumes "list_all lineLocal (splitLines s)" "pre = [] \<or> isEol (last pre)"
  shows "imgLoop (pre @ s) (length pre) srcs
    = (pre @ mapLines rwLine s, srcs @ concat (map srcLine (splitLines s)))"
  using assms
proof (induction s arbitrary: pre srcs rule: lines_induct)
  case (line l)
  then have loc: "lineLocal l" by (simp add: splitLines_line)
  show ?case
  proof (cases "imgMatchHere l")
    case None
    have "imgExec (pre @ l) (length pre) = None"
      using imgExec_split_True [OF line.prems(2), of l] imgScan_nomatch_end [OF line.hyps None]
      by simp
    then have "imgLoop (pre @ l) (length pre) srcs = (pre @ l, srcs)" by (rule imgLoop_None)
    with None line.hyps show ?thesis
      by (simp add: rwLine_None mapLines_line splitLines_line)
  next
    case (Some p)
    obtain alt src where p: "p = (alt, src)" by (cases p)
    with Some have m: "imgMatchHere l = Some (alt, src)" by simp
    from imgMatchHere_whole_line [OF line.hyps m] have lm: "l = imgMatched alt src" .
    from m lm have m': "imgMatchHere (imgMatched alt src @ []) = Some (alt, src)" by simp
    from line.hyps lm have ef: "list_all (\<lambda>c. \<not> isEol c) (imgMatched alt src)" by simp
    note step = imgLoop_match [OF line.prems(2) m', of srcs]
    show ?thesis
    proof (cases "eligible src")
      case True
      have "list_all (\<lambda>c. \<not> isEol c)
          (drop (length (imgMatched alt src)) (imgReplaced alt src))"
        using eolfree_parts [OF ef] by (auto simp: list_all_iff dest: in_set_dropD)
      then have "imgExec (pre @ imgReplaced alt src @ [])
          (length pre + length (imgMatched alt src)) = None"
        using imgExec_after_replaced [OF ef, of pre "[]"] by (simp add: imgScan_skip_end)
      then have "imgLoop (pre @ imgReplaced alt src @ [])
          (length pre + length (imgMatched alt src)) (srcs @ [src])
          = (pre @ imgReplaced alt src @ [], srcs @ [src])"
        by (rule imgLoop_None)
      with step True have "imgLoop (pre @ l) (length pre) srcs
          = (pre @ imgReplaced alt src, srcs @ [src])"
        by (simp add: lm)
      with True m line.hyps show ?thesis
        by (simp add: rwLine_Some mapLines_line splitLines_line)
    next
      case False
      have "imgExec (pre @ imgMatched alt src @ [])
          (length pre + length (imgMatched alt src)) = None"
        using imgExec_after_skipped [of pre alt src "[]"] by (simp add: imgScan_Nil)
      then have "imgLoop (pre @ imgMatched alt src @ [])
          (length pre + length (imgMatched alt src)) srcs
          = (pre @ imgMatched alt src @ [], srcs)"
        by (rule imgLoop_None)
      with step False have "imgLoop (pre @ l) (length pre) srcs = (pre @ l, srcs)"
        by (simp add: lm)
      with False m line.hyps show ?thesis
        by (simp add: rwLine_Some mapLines_line splitLines_line)
    qed
  qed
next
  case (eol l e r)
  from eol.prems(1) eol.hyps have loc: "lineLocal l" and H: "list_all lineLocal (splitLines r)"
    by (simp_all add: splitLines_append_eol)
  have ale: "atLineEnd (e # r)" using eol.hyps(2) by (simp add: atLineEnd_def)
  have ml: "imgMatchHere (l @ e # r) = imgMatchHere l"
    using imgMatchHere_line [OF eol.hyps(1) loc ale] .
  have sp: "splitLines (l @ e # r) = l # splitLines r"
    using eol.hyps by (simp add: splitLines_append_eol)
  have mp: "mapLines rwLine (l @ e # r) = rwLine l @ e # mapLines rwLine r"
    using eol.hyps by (simp add: mapLines_append_eol)
  have next_line: "imgLoop ((p @ [e]) @ r) (length (p @ [e])) ss
      = ((p @ [e]) @ mapLines rwLine r, ss @ concat (map srcLine (splitLines r)))" for p ss
    using eol.IH [OF H, of "p @ [e]" ss] eol.hyps(2) by simp
  show ?case
  proof (cases "imgMatchHere l")
    case None
    with ml have n: "imgMatchHere (l @ e # r) = None" by simp
    have "imgExec (pre @ l @ e # r) (length pre) = imgScan True (Suc (length pre + length l)) r"
      using imgExec_split_True [OF eol.prems(2), of "l @ e # r"]
        imgScan_nomatch_line [OF eol.hyps(1,2) n] by simp
    then have "imgExec ((pre @ l) @ e # r) (length pre) = imgScan True (Suc (length (pre @ l))) r"
      by simp
    from imgLoop_advance [OF this eol.hyps(2), of srcs]
    have "imgLoop (pre @ l @ e # r) (length pre) srcs
        = imgLoop (((pre @ l) @ [e]) @ r) (length ((pre @ l) @ [e])) srcs" by simp
    with next_line [of "pre @ l" srcs] None show ?thesis
      by (simp add: sp mp rwLine_None)
  next
    case (Some p)
    obtain alt src where p: "p = (alt, src)" by (cases p)
    with Some have m: "imgMatchHere l = Some (alt, src)" by simp
    from imgMatchHere_whole_line [OF eol.hyps(1) m] have lm: "l = imgMatched alt src" .
    from m ml lm have m': "imgMatchHere (imgMatched alt src @ e # r) = Some (alt, src)" by simp
    from eol.hyps(1) lm have ef: "list_all (\<lambda>c. \<not> isEol c) (imgMatched alt src)" by simp
    note step = imgLoop_match [OF eol.prems(2) m', of srcs]
    show ?thesis
    proof (cases "eligible src")
      case True
      let ?m = "length (imgMatched alt src)"
      let ?R = "imgReplaced alt src"
      have d: "list_all (\<lambda>c. \<not> isEol c) (drop ?m ?R)"
        using eolfree_parts [OF ef] by (auto simp: list_all_iff dest: in_set_dropD)
      have len: "?m + length (drop ?m ?R) = length ?R" by (simp add: length_imgReplaced)
      have "imgExec (pre @ ?R @ e # r) (length pre + ?m)
          = imgScan True (Suc (length pre + ?m + length (drop ?m ?R))) r"
        using imgExec_after_replaced [OF ef, of pre "e # r"]
          imgScan_skip_line [OF d eol.hyps(2), of "length pre + ?m" r] by simp
      also have "length pre + ?m + length (drop ?m ?R) = length (pre @ ?R)"
        using len by simp
      finally have "imgExec ((pre @ ?R) @ e # r) (length pre + ?m)
          = imgScan True (Suc (length (pre @ ?R))) r" by simp
      from imgLoop_advance [OF this eol.hyps(2), of "srcs @ [src]"]
      have "imgLoop (pre @ ?R @ e # r) (length pre + ?m) (srcs @ [src])
          = imgLoop (((pre @ ?R) @ [e]) @ r) (length ((pre @ ?R) @ [e])) (srcs @ [src])"
        by simp
      with step True next_line [of "pre @ ?R" "srcs @ [src]"]
      have "imgLoop (pre @ l @ e # r) (length pre) srcs
          = (pre @ ?R @ e # mapLines rwLine r, srcs @ [src] @ concat (map srcLine (splitLines r)))"
        by (simp add: lm)
      with True m show ?thesis by (simp add: sp mp rwLine_Some)
    next
      case False
      let ?m = "length (imgMatched alt src)"
      have "imgExec (pre @ imgMatched alt src @ e # r) (length pre + ?m)
          = imgScan True (Suc (length pre + ?m)) r"
        using imgExec_after_skipped [of pre alt src "e # r"] eol.hyps(2)
        by (simp add: imgScan_False_Cons)
      then have "imgExec ((pre @ l) @ e # r) (length pre + ?m)
          = imgScan True (Suc (length (pre @ l))) r" by (simp add: lm)
      from imgLoop_advance [OF this eol.hyps(2), of srcs]
      have "imgLoop (pre @ l @ e # r) (length pre + ?m) srcs
          = imgLoop (((pre @ l) @ [e]) @ r) (length ((pre @ l) @ [e])) srcs"
        by simp
      with step False next_line [of "pre @ l" srcs]
      have "imgLoop (pre @ l @ e # r) (length pre) srcs
          = (pre @ l @ e # mapLines rwLine r, srcs @ concat (map srcLine (splitLines r)))"
        by (simp add: lm)
      with False m show ?thesis by (simp add: sp mp rwLine_Some)
    qed
  qed
qed


lemma splitLines_mapLines:
  assumes "\<And>l. list_all (\<lambda>c. \<not> isEol c) l \<Longrightarrow> list_all (\<lambda>c. \<not> isEol c) (f l)"
  shows "splitLines (mapLines f s) = map f (splitLines s)"
proof (induction s rule: lines_induct)
  case (line l)
  then show ?case using assms [OF line] by (simp add: mapLines_line splitLines_line)
next
  case (eol l e r)
  then show ?case using assms [OF eol(1)]
    by (simp add: mapLines_append_eol splitLines_append_eol)
qed

lemma splitLines_eolfree: "list_all (list_all (\<lambda>c. \<not> isEol c)) (splitLines s)"
  by (induction s rule: lines_induct) (simp_all add: splitLines_line splitLines_append_eol)

lemma lineLocal_replaced:
  assumes "CHR '']'' \<notin> set alt"
  shows "lineLocal (imgReplaced alt src)"
proof -
  have "c \<in> set alt \<Longrightarrow> c \<noteq> CHR '']''" for c
    using assms by auto
  then have "dropWhile (\<lambda>c. c \<noteq> CHR '']'') (alt @ CHR '']'' # x)
      = dropWhile (\<lambda>c. c \<noteq> CHR '']'') (CHR '']'' # x)" for x
    by (rule dropWhile_append2)
  then have "dropWhile (\<lambda>c. c \<noteq> CHR '']'') (alt @ CHR '']'' # x) = CHR '']'' # x" for x
    by simp
  then show ?thesis
    by (simp add: lineLocal_def imgReplaced_def)
qed

lemma rwLine_facts:
  assumes l: "list_all (\<lambda>c. \<not> isEol c) l"
  shows "list_all (\<lambda>c. \<not> isEol c) (rwLine l)" "rwLine (rwLine l) = rwLine l"
    "srcLine (rwLine l) = []" "lineLocal l \<Longrightarrow> lineLocal (rwLine l)"
proof -
  have "list_all (\<lambda>c. \<not> isEol c) (rwLine l) \<and> rwLine (rwLine l) = rwLine l
    \<and> srcLine (rwLine l) = [] \<and> (lineLocal l \<longrightarrow> lineLocal (rwLine l))"
  proof (cases "imgMatchHere l")
    case None
    with l show ?thesis by (simp add: rwLine_None)
  next
    case (Some p)
    obtain alt src where p: "p = (alt, src)" by (cases p)
    with Some have m: "imgMatchHere l = Some (alt, src)" by simp
    from imgMatchHere_whole_line [OF l m] have lm: "l = imgMatched alt src" .
    from imgMatchHere_shape [OF m] have na: "CHR '']'' \<notin> set alt" by blast
    show ?thesis
    proof (cases "eligible src")
      case True
      with m have rw: "rwLine l = imgReplaced alt src" by (simp add: rwLine_Some)
      have "imgMatchHere (imgReplaced alt src) = None"
        using imgMatchHere_replaced [OF na, of src "[]"] by simp
      moreover have "list_all (\<lambda>c. \<not> isEol c) (imgReplaced alt src)"
        using l lm eolfree_parts by simp
      ultimately show ?thesis
        using rw lineLocal_replaced [OF na] by (simp add: rwLine_None)
    next
      case False
      with m have "rwLine l = l" "srcLine l = []" by (simp_all add: rwLine_Some)
      with l show ?thesis by simp
    qed
  qed
  then show "list_all (\<lambda>c. \<not> isEol c) (rwLine l)" "rwLine (rwLine l) = rwLine l"
    "srcLine (rwLine l) = []" "lineLocal l \<Longrightarrow> lineLocal (rwLine l)"
    by simp_all
qed

lemma mapLines_rwLine_idem: "mapLines rwLine (mapLines rwLine s) = mapLines rwLine s"
proof (induction s rule: lines_induct)
  case (line l)
  then show ?case using rwLine_facts(1,2) [OF line] by (simp add: mapLines_line)
next
  case (eol l e r)
  then show ?case using rwLine_facts(1,2) [OF eol(1)] by (simp add: mapLines_append_eol)
qed

text \<open>On a text whose lines decide the expression within the line, the loop rewrites
  line by line.\<close>

lemma imgLoop_by_lines:
  assumes "list_all lineLocal (splitLines t)"
  shows "imgLoop t 0 [] = (mapLines rwLine t, concat (map srcLine (splitLines t)))"
  using imgLoop_lines [OF assms, of "[]" "[]"] by simp

lemma imgExec_never_placeholder:
  assumes "imgExec t k = Some (i, alt, src)"
  shows "\<not> prefix placeholderPrefix src"
proof -
  from imgExec_shape [OF assms] have "imgMatchHere (drop i t) = Some (alt, src)" by simp
  from imgMatchHere_shape [OF this] obtain rest where
    "\<not> prefix placeholderPrefix (src @ '')'' @ rest)" by blast
  then show ?thesis by (metis prefix_prefix)
qed

text \<open>
  Claim C7, as amended: in every text and from every \<^verbatim>\<open>lastIndex\<close>, a source that starts
  with the placeholder prefix is never matched; and for every block text whose lines
  decide the expression within the line, a second pass over the output of the first
  replaces nothing and records no source.
\<close>

theorem imgLoop_idempotent_on_local_lines:
  "(imgExec t k = Some (i, alt, src) \<longrightarrow> \<not> prefix placeholderPrefix src)
   \<and> (list_all lineLocal (splitLines t) \<longrightarrow>
        imgLoop (fst (imgLoop t 0 [])) 0 [] = (fst (imgLoop t 0 []), []))"
proof (intro conjI impI)
  assume "imgExec t k = Some (i, alt, src)"
  then show "\<not> prefix placeholderPrefix src" by (rule imgExec_never_placeholder)
next
  assume H: "list_all lineLocal (splitLines t)"
  let ?t1 = "mapLines rwLine t"
  have f: "fst (imgLoop t 0 []) = ?t1" by (simp add: imgLoop_by_lines [OF H])
  have sp: "splitLines ?t1 = map rwLine (splitLines t)"
    by (rule splitLines_mapLines) (rule rwLine_facts(1))
  have ef: "\<forall>l \<in> set (splitLines t). list_all (\<lambda>c. \<not> isEol c) l"
    using splitLines_eolfree [of t] by (simp add: list_all_iff)
  have H1: "list_all lineLocal (splitLines ?t1)"
    unfolding sp using H ef rwLine_facts(4) by (auto simp: list_all_iff)
  have "concat (map srcLine (splitLines ?t1)) = []"
    unfolding sp using ef rwLine_facts(3) by (auto simp: list_all_iff)
  with imgLoop_by_lines [OF H1] have "imgLoop ?t1 0 [] = (?t1, [])"
    by (simp add: mapLines_rwLine_idem)
  with f show "imgLoop (fst (imgLoop t 0 [])) 0 [] = (fst (imgLoop t 0 []), [])" by simp
qed

text \<open>The theorem at a text of five lines: an eligible reference with a size, a remote
  reference, a line that starts like a reference and is none, and two lines of prose.\<close>

theorem imgLoop_idempotent_on_local_lines_witness:
  "imgLoop ''intro\<newline>![a](x.png =250x)\<newline>![b](http://h/y.png)\<newline>![c]: text ![d](z.png)\<newline>end'' 0 []
     = (''intro\<newline>![a](./TOBE_BASE64_IMGPATH_x.png =250x_TO_BE_BASE64_IMGPATH)\<newline>![b](http://h/y.png)\<newline>![c]: text ![d](z.png)\<newline>end'',
        [''x.png =250x''])
   \<and> imgLoop ''intro\<newline>![a](./TOBE_BASE64_IMGPATH_x.png =250x_TO_BE_BASE64_IMGPATH)\<newline>![b](http://h/y.png)\<newline>![c]: text ![d](z.png)\<newline>end'' 0 []
     = (''intro\<newline>![a](./TOBE_BASE64_IMGPATH_x.png =250x_TO_BE_BASE64_IMGPATH)\<newline>![b](http://h/y.png)\<newline>![c]: text ![d](z.png)\<newline>end'',
        [])"
proof -
  let ?t = "''intro\<newline>![a](x.png =250x)\<newline>![b](http://h/y.png)\<newline>![c]: text ![d](z.png)\<newline>end''"
  have H: "list_all lineLocal (splitLines ?t)" by code_simp
  have 1: "imgLoop ?t 0 []
     = (''intro\<newline>![a](./TOBE_BASE64_IMGPATH_x.png =250x_TO_BE_BASE64_IMGPATH)\<newline>![b](http://h/y.png)\<newline>![c]: text ![d](z.png)\<newline>end'',
        [''x.png =250x''])" by code_simp
  from imgLoop_idempotent_on_local_lines [of ?t 0 0 "[]" "[]"] H
  have "imgLoop (fst (imgLoop ?t 0 [])) 0 [] = (fst (imgLoop ?t 0 []), [])" by blast
  then have 2: "imgLoop ''intro\<newline>![a](./TOBE_BASE64_IMGPATH_x.png =250x_TO_BE_BASE64_IMGPATH)\<newline>![b](http://h/y.png)\<newline>![c]: text ![d](z.png)\<newline>end'' 0 []
     = (''intro\<newline>![a](./TOBE_BASE64_IMGPATH_x.png =250x_TO_BE_BASE64_IMGPATH)\<newline>![b](http://h/y.png)\<newline>![c]: text ![d](z.png)\<newline>end'', [])"
    unfolding 1 by simp
  from 1 2 show ?thesis by blast
qed

end
